theory Spec2Isabelle
  imports Main "HOL-Library.Word"
begin

section \<open>Row materialisation: the tagged-tuple projector\<close>

text \<open>
  The embedding follows \<^verbatim>\<open>go/libraries/doltcore/sqle/dolt_map_iter.go\<close>.
  Tags are Go \<^verbatim>\<open>uint64\<close> values, counters and indexes are Go \<^verbatim>\<open>int\<close> values.
\<close>

type_synonym tag = "64 word"

text \<open>
  Storage values (\<^verbatim>\<open>types.Value\<close>).  Modelled from the spec: the value model of the
  storage layer is not part of the sources; a tuple is a sequence of (tag, raw value)
  pairs in stored order.  An entry whose tag or whose value cannot be decoded by the
  cursor is kept as a marker, so that the error returns of the cursor are branches
  of the model.
\<close>

datatype val = VNull | VUint "64 word" | VString string | VTuple "entry list"
and entry = Entry (entryTag: tag) (entryVal: val) | BadTag | BadVal tag

text \<open>SQL values (\<^verbatim>\<open>interface{}\<close>); \<open>SqlNil\<close> is Go's \<^verbatim>\<open>nil\<close>.\<close>

datatype sql_value = SqlNil | SqlInt int | SqlText string

text \<open>An \<open>Error\<close> is a returned Go error, a \<open>Panic\<close> is a run-time panic.\<close>

datatype error = Error string | Panic string

text \<open>
  \<^verbatim>\<open>schema.Column\<close>, with the fields the converter reads.  The field
  \<open>ConvertNomsValueToValue\<close> is the column's \<^verbatim>\<open>TypeInfo.ConvertNomsValueToValue\<close>,
  which returns a value together with an optional error as in Go.
\<close>

record Column =
  Tag :: tag
  IsPartOfPK :: bool
  ConvertNomsValueToValue :: "val \<Rightarrow> sql_value \<times> error option"

record KVToSqlRowConverter =
  tagToSqlColIdx :: "tag \<rightharpoonup> int"
  cols :: "Column list"
  rowSize :: int
  valsFromKey :: int
  valsFromVal :: int
  maxValTag :: tag

definition maxU64 :: "64 word \<Rightarrow> 64 word \<Rightarrow> 64 word" where
  "maxU64 x y = (if x > y then x else y)"

text \<open>The loop of \<^verbatim>\<open>getValLocations\<close>, with its three counters as accumulator.\<close>

fun getValLocations_loop ::
  "(tag \<rightharpoonup> int) \<Rightarrow> Column list \<Rightarrow> int \<times> int \<times> tag \<Rightarrow> int \<times> int \<times> tag" where
  "getValLocations_loop m [] acc = acc"
| "getValLocations_loop m (col # cs) (fromKey, fromVal, maxTag) =
     (if m (Tag col) \<noteq> None then
        (if IsPartOfPK col then getValLocations_loop m cs (fromKey + 1, fromVal, maxTag)
         else getValLocations_loop m cs (fromKey, fromVal + 1, maxU64 maxTag (Tag col)))
      else getValLocations_loop m cs (fromKey, fromVal, maxTag))"

definition getValLocations :: "(tag \<rightharpoonup> int) \<Rightarrow> Column list \<Rightarrow> int \<times> int \<times> tag" where
  "getValLocations m cs = getValLocations_loop m cs (0, 0, 0)"

definition NewKVToSqlRowConverter ::
  "(tag \<rightharpoonup> int) \<Rightarrow> Column list \<Rightarrow> int \<Rightarrow> KVToSqlRowConverter" where
  "NewKVToSqlRowConverter m cs n =
     (case getValLocations m cs of (fromKey, fromVal, maxTag) \<Rightarrow>
        \<lparr>tagToSqlColIdx = m, cols = cs, rowSize = n,
         valsFromKey = fromKey, valsFromVal = fromVal, maxValTag = maxTag\<rparr>)"

fun tagToSqlColIdx_of :: "Column list \<Rightarrow> int \<Rightarrow> (tag \<rightharpoonup> int) \<Rightarrow> (tag \<rightharpoonup> int)" where
  "tagToSqlColIdx_of [] i m = m"
| "tagToSqlColIdx_of (col # cs) i m = tagToSqlColIdx_of cs (i + 1) (m(Tag col \<mapsto> i))"

definition NewKVToSqlRowConverterForCols :: "Column list \<Rightarrow> KVToSqlRowConverter" where
  "NewKVToSqlRowConverterForCols cs =
     NewKVToSqlRowConverter (tagToSqlColIdx_of cs 0 Map.empty) cs (int (length cs))"

subsection \<open>The tuple cursor\<close>

text \<open>
  \<^verbatim>\<open>types.Tuple\<close>: \<open>None\<close> is the zero value \<^verbatim>\<open>types.Tuple{}\<close> that
  \<^verbatim>\<open>ConvertKVToSqlRow\<close> passes on when the value is null.
\<close>

type_synonym Tuple = "entry list option"

text \<open>
  Modelled from the spec: \<^verbatim>\<open>TupleIterator.InitForTuple\<close> is not part of the sources.
  It positions the cursor before the first entry of the tuple; the zero tuple of an
  absent value ``is treated as containing no value-column contributions, not as an
  error'', so its cursor is at the end at once.
\<close>

definition InitForTuple :: "Tuple \<Rightarrow> error + entry list" where
  "InitForTuple tup = (case tup of None \<Rightarrow> Inr [] | Some es \<Rightarrow> Inr es)"

text \<open>
  Modelled from the spec: the cursor yields the tag and then the value of each entry.
  \<open>nextTag\<close> is the call of \<^verbatim>\<open>Next\<close> that reads a tag, \<open>nextVal\<close> the call that reads
  the value after it, \<open>skipVal\<close> is \<^verbatim>\<open>Skip\<close>.
\<close>

fun nextTag :: "entry \<Rightarrow> error + tag" where
  "nextTag (Entry t v) = Inr t"
| "nextTag BadTag = Inl (Error ''cannot decode tag'')"
| "nextTag (BadVal t) = Inr t"

fun nextVal :: "entry \<Rightarrow> error + val" where
  "nextVal (Entry t v) = Inr v"
| "nextVal BadTag = Inl (Error ''cannot decode tag'')"
| "nextVal (BadVal t) = Inl (Error ''cannot decode value'')"

fun skipVal :: "entry \<Rightarrow> error option" where
  "skipVal (Entry t v) = None"
| "skipVal BadTag = Some (Error ''cannot decode tag'')"
| "skipVal (BadVal t) = Some (Error ''cannot decode value'')"

text \<open>
  The outcome of one \<^verbatim>\<open>processTuple\<close>: the slice \<^verbatim>\<open>cols\<close> as the call leaves it, the
  number of values the cursor has consumed (its position: two per entry, one for an
  entry of which only the tag was read), the converter invocations made, in order
  (destination index and raw value), and the returned error.
\<close>

record scan =
  scanRow :: "sql_value list"
  scanPos :: nat
  scanCalls :: "(nat \<times> val) list"
  scanErr :: "error option"

text \<open>
  The \<^verbatim>\<open>for filled < valsToFill && tag64 < maxTag\<close> loop of \<^verbatim>\<open>processTuple\<close>.  The
  last argument is what the cursor has not read yet.  In
  \<^verbatim>\<open>cols[sqlColIdx], err = conv.cols[sqlColIdx].TypeInfo.ConvertNomsValueToValue(val)\<close>
  the right-hand side is evaluated first (its index may panic), then the slot is
  assigned (that index may panic), then the error is looked at.
\<close>

fun processTuple_loop ::
  "KVToSqlRowConverter \<Rightarrow> int \<Rightarrow> tag \<Rightarrow> sql_value list \<Rightarrow> int \<Rightarrow> tag \<Rightarrow> nat
     \<Rightarrow> (nat \<times> val) list \<Rightarrow> entry list \<Rightarrow> scan" where
  "processTuple_loop conv valsToFill maxTag row filled tag64 p cs [] =
     \<lparr>scanRow = row, scanPos = p, scanCalls = cs, scanErr = None\<rparr>"
| "processTuple_loop conv valsToFill maxTag row filled tag64 p cs (e # es) =
     (if filled < valsToFill \<and> tag64 < maxTag then
        (case nextTag e of
           Inl er \<Rightarrow> \<lparr>scanRow = row, scanPos = p, scanCalls = cs, scanErr = Some er\<rparr>
         | Inr t \<Rightarrow>
             if t > maxTag then
               \<lparr>scanRow = row, scanPos = p + 1, scanCalls = cs, scanErr = None\<rparr>
             else
               (case tagToSqlColIdx conv t of
                  None \<Rightarrow>
                    (case skipVal e of
                       Some er \<Rightarrow>
                         \<lparr>scanRow = row, scanPos = p + 1, scanCalls = cs, scanErr = Some er\<rparr>
                     | None \<Rightarrow>
                         processTuple_loop conv valsToFill maxTag row filled t (p + 2) cs es)
                | Some sqlColIdx \<Rightarrow>
                    (case nextVal e of
                       Inl er \<Rightarrow>
                         \<lparr>scanRow = row, scanPos = p + 1, scanCalls = cs, scanErr = Some er\<rparr>
                     | Inr v \<Rightarrow>
                         if sqlColIdx < 0 \<or> int (length (cols conv)) \<le> sqlColIdx then
                           \<lparr>scanRow = row, scanPos = p + 2, scanCalls = cs,
                            scanErr = Some (Panic ''index out of range'')\<rparr>
                         else
                           (case ConvertNomsValueToValue (cols conv ! nat sqlColIdx) v of
                              (x, cerr) \<Rightarrow>
                                if int (length row) \<le> sqlColIdx then
                                  \<lparr>scanRow = row, scanPos = p + 2,
                                   scanCalls = cs @ [(nat sqlColIdx, v)],
                                   scanErr = Some (Panic ''index out of range'')\<rparr>
                                else
                                  (case cerr of
                                     Some er \<Rightarrow>
                                       \<lparr>scanRow = row[nat sqlColIdx := x], scanPos = p + 2,
                                        scanCalls = cs @ [(nat sqlColIdx, v)],
                                        scanErr = Some er\<rparr>
                                   | None \<Rightarrow>
                                       processTuple_loop conv valsToFill maxTag
                                         (row[nat sqlColIdx := x]) (filled + 1) t (p + 2)
                                         (cs @ [(nat sqlColIdx, v)]) es)))))
      else \<lparr>scanRow = row, scanPos = p, scanCalls = cs, scanErr = None\<rparr>)"

definition processTuple ::
  "KVToSqlRowConverter \<Rightarrow> sql_value list \<Rightarrow> int \<Rightarrow> tag \<Rightarrow> Tuple \<Rightarrow> scan" where
  "processTuple conv row valsToFill maxTag tup =
     (case InitForTuple tup of
        Inl er \<Rightarrow> \<lparr>scanRow = row, scanPos = 0, scanCalls = [], scanErr = Some er\<rparr>
      | Inr es \<Rightarrow> processTuple_loop conv valsToFill maxTag row 0 0 0 [] es)"

text \<open>\<^verbatim>\<open>types.IsNull\<close>: the absent sentinel of the storage layer.\<close>

definition IsNull :: "val \<Rightarrow> bool" where
  "IsNull v = (v = VNull)"

text \<open>
  The result of \<^verbatim>\<open>ConvertKVToSqlRow\<close>: the Go pair (row, error), where \<open>None\<close> is
  \<^verbatim>\<open>nil\<close>, and the converter invocations the call made.
\<close>

record convert_result =
  resRow :: "sql_value list option"
  resErr :: "error option"
  resCalls :: "(nat \<times> val) list"

definition keyScan :: "KVToSqlRowConverter \<Rightarrow> entry list \<Rightarrow> scan" where
  "keyScan conv keyTup =
     (let row = replicate (nat (rowSize conv)) SqlNil in
      if valsFromKey conv > 0
      then processTuple conv row (valsFromKey conv) 0xFFFFFFFFFFFFFFFF (Some keyTup)
      else \<lparr>scanRow = row, scanPos = 0, scanCalls = [], scanErr = None\<rparr>)"

definition valScan :: "KVToSqlRowConverter \<Rightarrow> sql_value list \<Rightarrow> Tuple \<Rightarrow> scan" where
  "valScan conv row valTup =
     (if valsFromVal conv > 0
      then processTuple conv row (valsFromVal conv) (maxValTag conv) valTup
      else \<lparr>scanRow = row, scanPos = 0, scanCalls = [], scanErr = None\<rparr>)"

definition ConvertKVToSqlRow :: "KVToSqlRowConverter \<Rightarrow> val \<Rightarrow> val \<Rightarrow> convert_result" where
  "ConvertKVToSqlRow conv k v =
     (case k of
        VTuple keyTup \<Rightarrow>
          (case (if \<not> IsNull v
                 then (case v of VTuple t \<Rightarrow> Inr (Some t)
                       | _ \<Rightarrow> Inl (Error ''invalid value is not a tuple''))
                 else Inr None) of
             Inl er \<Rightarrow> \<lparr>resRow = None, resErr = Some er, resCalls = []\<rparr>
           | Inr valTup \<Rightarrow>
               if rowSize conv < 0
               then \<lparr>resRow = None, resErr = Some (Panic ''makeslice: len out of range''),
                     resCalls = []\<rparr>
               else
                 (let ks = keyScan conv keyTup in
                  case scanErr ks of
                    Some er \<Rightarrow> \<lparr>resRow = None, resErr = Some er, resCalls = scanCalls ks\<rparr>
                  | None \<Rightarrow>
                      (let vs = valScan conv (scanRow ks) valTup in
                       case scanErr vs of
                         Some er \<Rightarrow>
                           \<lparr>resRow = None, resErr = Some er,
                            resCalls = scanCalls ks @ scanCalls vs\<rparr>
                       | None \<Rightarrow>
                           \<lparr>resRow = Some (scanRow vs), resErr = None,
                            resCalls = scanCalls ks @ scanCalls vs\<rparr>)))
      | _ \<Rightarrow> \<lparr>resRow = None, resErr = Some (Error ''invalid key is not a tuple''),
              resCalls = []\<rparr>)"

section \<open>The adaptive width-sizing transform\<close>

text \<open>
  \<^verbatim>\<open>schema.Schema\<close> is read through its ordered columns only; a \<^verbatim>\<open>row.Row\<close> is read
  through its tagged values only.
\<close>

type_synonym Schema = "Column list"

type_synonym Row = "(tag \<times> val) list"

text \<open>
  Modelled from the spec: \<^verbatim>\<open>Row.GetColVal\<close> is not part of the sources.  A column
  without a value reads as the null value.
\<close>

definition GetColVal :: "Row \<Rightarrow> tag \<Rightarrow> val" where
  "GetColVal r t = (case map_of r t of None \<Rightarrow> VNull | Some v \<Rightarrow> v)"

text \<open>\<^verbatim>\<open>pipeline.ReadableMap\<close>, the immutable property bag, as an association list.\<close>

type_synonym ReadableMap = "(string \<times> string) list"

text \<open>
  Modelled from the spec: \<^verbatim>\<open>ReadableMap.Set\<close> is not part of the sources; it gives
  the properties merged with the updates, an update winning over an old value.
\<close>

definition Set_props :: "ReadableMap \<Rightarrow> ReadableMap \<Rightarrow> ReadableMap" where
  "Set_props ps upd = upd @ filter (\<lambda>kv. fst kv \<notin> fst ` set upd) ps"

record RowWithProps =
  Row :: Row
  Props :: ReadableMap

record TransformRowFailure =
  FailedRow :: Row
  TransformName :: string
  Details :: string

record TransformedRowResult =
  RowData :: Row
  PropertyUpdates :: ReadableMap

type_synonym TooLongBehavior = int

text \<open>
  Modelled from the spec: \<^verbatim>\<open>NewFWTSchemaWithWidths\<close> and \<^verbatim>\<open>NewFWTTransformer\<close> are not
  part of the sources.  The fixed-width formatting specification is kept as the data it
  is built from; the formatter is that specification with the too-long behaviour.
\<close>

record FWTSchema =
  fwtSch :: Schema
  fwtWidths :: "tag \<rightharpoonup> int"
  fwtMaxRunes :: "tag \<rightharpoonup> int"

record FWTTransformer =
  fwtSchema :: FWTSchema
  fwtTooLngBhv :: TooLongBehavior

definition NewFWTSchemaWithWidths ::
  "Schema \<Rightarrow> (tag \<rightharpoonup> int) \<Rightarrow> (tag \<rightharpoonup> int) \<Rightarrow> FWTSchema" where
  "NewFWTSchemaWithWidths s pw mr = \<lparr>fwtSch = s, fwtWidths = pw, fwtMaxRunes = mr\<rparr>"

definition NewFWTTransformer :: "FWTSchema \<Rightarrow> TooLongBehavior \<Rightarrow> FWTTransformer" where
  "NewFWTTransformer fs b = \<lparr>fwtSchema = fs, fwtTooLngBhv = b\<rparr>"

text \<open>
  The functions of the \<^verbatim>\<open>fwt\<close> package that the transform calls and that are not part
  of the sources are parameters: the display width of a string, the number of runes of a
  string (\<^verbatim>\<open>len([]rune(s))\<close>), and \<^verbatim>\<open>FWTTransformer.Transform\<close>, which returns the
  result list and the error message.
\<close>

record env =
  StringWidth :: "string \<Rightarrow> nat"
  RuneCount :: "string \<Rightarrow> nat"
  Transform :: "FWTTransformer \<Rightarrow> Row \<Rightarrow> ReadableMap \<Rightarrow> TransformedRowResult list \<times> string"

text \<open>The transformer; \<open>rowBuffer = None\<close> is the \<^verbatim>\<open>nil\<close> slice, \<open>fwtTr = None\<close> the \<^verbatim>\<open>nil\<close> pointer.\<close>

record AutoSizingFWTTransformer =
  numSamples :: int
  printWidths :: "tag \<rightharpoonup> int"
  maxRunes :: "tag \<rightharpoonup> int"
  rowBuffer :: "RowWithProps list option"
  sch :: Schema
  tooLngBhv :: TooLongBehavior
  fwtTr :: "FWTTransformer option"

definition NewAutoSizingFWTTransformer ::
  "Schema \<Rightarrow> TooLongBehavior \<Rightarrow> int \<Rightarrow> AutoSizingFWTTransformer" where
  "NewAutoSizingFWTTransformer s b n =
     \<lparr>numSamples = n, printWidths = Map.empty, maxRunes = Map.empty, rowBuffer = Some [],
      sch = s, tooLngBhv = b, fwtTr = None\<rparr>"

text \<open>
  The stage with its surroundings: the transformer, everything sent on the output queue
  and on the error queue so far (oldest first), and the number of times the stop channel
  has been looked at.  The stop channel itself is a function that tells, for each look,
  whether the cancellation signal is found raised.
\<close>

record stage =
  asTr :: AutoSizingFWTTransformer
  outChan :: "RowWithProps list"
  badRowChan :: "TransformRowFailure list"
  polls :: nat

text \<open>Reading a Go map of ints: a missing key reads as zero.\<close>

definition width_of :: "(tag \<rightharpoonup> int) \<Rightarrow> tag \<Rightarrow> int" where
  "width_of m t = (case m t of None \<Rightarrow> 0 | Some w \<Rightarrow> w)"

definition processRow :: "env \<Rightarrow> stage \<Rightarrow> RowWithProps \<Rightarrow> error + stage" where
  "processRow ev st rowWithProps =
     (case fwtTr (asTr st) of
        None \<Rightarrow> Inl (Panic ''nil pointer dereference'')
      | Some tr \<Rightarrow>
          (case Transform ev tr (Row rowWithProps) (Props rowWithProps) of
             (rds, errMsg) \<Rightarrow>
               if errMsg \<noteq> [] then
                 Inr (st\<lparr>badRowChan := badRowChan st @
                        [\<lparr>FailedRow = Row rowWithProps,
                          TransformName = ''Auto Sizing Fixed Width Transform'',
                          Details = errMsg\<rparr>]\<rparr>)
               else if length rds = 1 then
                 (let propUpdates = PropertyUpdates (rds ! 0);
                      outProps = (if length propUpdates > 0
                                  then Set_props (Props rowWithProps) propUpdates
                                  else Props rowWithProps)
                  in Inr (st\<lparr>outChan := outChan st @
                            [\<lparr>Row = RowData (rds ! 0), Props = outProps\<rparr>]\<rparr>))
               else Inr st))"

text \<open>
  The replay loop of \<^verbatim>\<open>flush\<close>.  \<^verbatim>\<open>processRow\<close> does not touch the buffer, so the loop
  runs over the buffer as it was at the start; \<open>i\<close> is the loop index.  The result says
  whether the loop returned on the stop channel.
\<close>

fun flush_loop ::
  "env \<Rightarrow> (nat \<Rightarrow> bool) \<Rightarrow> nat \<Rightarrow> RowWithProps list \<Rightarrow> stage \<Rightarrow> error + (bool \<times> stage)" where
  "flush_loop ev stopChan i [] st = Inr (False, st)"
| "flush_loop ev stopChan i (r # rs) st =
     (case processRow ev st r of
        Inl er \<Rightarrow> Inl er
      | Inr st1 \<Rightarrow>
          if i mod 100 = 0 then
            (if stopChan (polls st1) then Inr (True, st1\<lparr>polls := polls st1 + 1\<rparr>)
             else flush_loop ev stopChan (i + 1) rs (st1\<lparr>polls := polls st1 + 1\<rparr>))
          else flush_loop ev stopChan (i + 1) rs st1)"

definition flush :: "env \<Rightarrow> (nat \<Rightarrow> bool) \<Rightarrow> stage \<Rightarrow> error + stage" where
  "flush ev stopChan st =
     (let a = asTr st;
          a1 = (if fwtTr a = None
                then a\<lparr>fwtTr := Some (NewFWTTransformer
                                        (NewFWTSchemaWithWidths (sch a) (printWidths a) (maxRunes a))
                                        (tooLngBhv a))\<rparr>
                else a);
          st1 = st\<lparr>asTr := a1\<rparr>
      in case flush_loop ev stopChan 0 (case rowBuffer a1 of None \<Rightarrow> [] | Some b \<Rightarrow> b) st1 of
           Inl er \<Rightarrow> Inl er
         | Inr (stopped, st2) \<Rightarrow>
             if stopped then Inr st2
             else Inr (st2\<lparr>asTr := (asTr st2)\<lparr>rowBuffer := None\<rparr>\<rparr>))"

text \<open>
  The callback that \<^verbatim>\<open>handleRow\<close> gives to \<^verbatim>\<open>IterSchema\<close>, run over the columns of the
  schema in order.  Modelled from the spec: \<^verbatim>\<open>Row.IterSchema\<close> is not part of the sources;
  it calls the callback with the tag and the value of each column of the schema.
\<close>

fun sampleRow ::
  "env \<Rightarrow> Row \<Rightarrow> Column list \<Rightarrow> (tag \<rightharpoonup> int) \<times> (tag \<rightharpoonup> int)
     \<Rightarrow> error + ((tag \<rightharpoonup> int) \<times> (tag \<rightharpoonup> int))" where
  "sampleRow ev r [] acc = Inr acc"
| "sampleRow ev r (col # cs) (pw, mr) =
     (let t = Tag col; v = GetColVal r t in
      if \<not> IsNull v then
        (case v of
           VString strVal \<Rightarrow>
             (let printWidth = int (StringWidth ev strVal);
                  numRunes = int (RuneCount ev strVal);
                  pw1 = (if printWidth > width_of pw t then pw(t \<mapsto> printWidth) else pw);
                  mr1 = (if numRunes > width_of mr t then mr(t \<mapsto> numRunes) else mr)
              in sampleRow ev r cs (pw1, mr1))
         | _ \<Rightarrow> Inl (Panic ''interface conversion: types.Value is not types.String''))
      else sampleRow ev r cs (pw, mr))"

definition handleRow :: "env \<Rightarrow> (nat \<Rightarrow> bool) \<Rightarrow> stage \<Rightarrow> RowWithProps \<Rightarrow> error + stage" where
  "handleRow ev stopChan st r =
     (let a = asTr st in
      case rowBuffer a of
        None \<Rightarrow> processRow ev st r
      | Some buf \<Rightarrow>
          if numSamples a \<le> 0 \<or> int (length buf) < numSamples a then
            (case sampleRow ev (Row r) (sch a) (printWidths a, maxRunes a) of
               Inl er \<Rightarrow> Inl er
             | Inr (pw, mr) \<Rightarrow>
                 Inr (st\<lparr>asTr := a\<lparr>printWidths := pw, maxRunes := mr,
                                      rowBuffer := Some (buf @ [r])\<rparr>\<rparr>))
          else flush ev stopChan st)"

text \<open>
  How \<^verbatim>\<open>TransformToFWT\<close> left its loop: by \<^verbatim>\<open>return\<close> on the stop channel, or by
  \<^verbatim>\<open>break RowLoop\<close> on the closed input.
\<close>

datatype loop_exit = Stopped | InputClosed

text \<open>
  The \<^verbatim>\<open>RowLoop\<close> of \<^verbatim>\<open>TransformToFWT\<close>.  The input queue is the list of rows that will
  be received before it is closed; waiting for a row is not modelled.  The first
  \<^verbatim>\<open>select\<close> looks at the stop channel; in the second both cases may be ready, and
  \<open>pick\<close> tells whether Go's choice falls on the stop channel.  The result carries the
  input that was not received.
\<close>

fun RowLoop ::
  "env \<Rightarrow> (nat \<Rightarrow> bool) \<Rightarrow> (nat \<Rightarrow> bool) \<Rightarrow> RowWithProps list \<Rightarrow> stage
     \<Rightarrow> error + (loop_exit \<times> stage \<times> RowWithProps list)" where
  "RowLoop ev stopChan pick [] st =
     (if stopChan (polls st) then Inr (Stopped, st\<lparr>polls := polls st + 1\<rparr>, [])
      else if stopChan (polls st + 1) \<and> pick (polls st + 1)
      then Inr (Stopped, st\<lparr>polls := polls st + 2\<rparr>, [])
      else Inr (InputClosed, st\<lparr>polls := polls st + 2\<rparr>, []))"
| "RowLoop ev stopChan pick (r # inChan) st =
     (if stopChan (polls st) then Inr (Stopped, st\<lparr>polls := polls st + 1\<rparr>, r # inChan)
      else if stopChan (polls st + 1) \<and> pick (polls st + 1)
      then Inr (Stopped, st\<lparr>polls := polls st + 2\<rparr>, r # inChan)
      else
        (case handleRow ev stopChan (st\<lparr>polls := polls st + 2\<rparr>) r of
           Inl er \<Rightarrow> Inl er
         | Inr st1 \<Rightarrow> RowLoop ev stopChan pick inChan st1))"

definition TransformToFWT ::
  "env \<Rightarrow> (nat \<Rightarrow> bool) \<Rightarrow> (nat \<Rightarrow> bool) \<Rightarrow> RowWithProps list \<Rightarrow> stage
     \<Rightarrow> error + (stage \<times> RowWithProps list)" where
  "TransformToFWT ev stopChan pick inChan st =
     (case RowLoop ev stopChan pick inChan st of
        Inl er \<Rightarrow> Inl er
      | Inr (Stopped, st1, rest) \<Rightarrow> Inr (st1, rest)
      | Inr (InputClosed, st1, rest) \<Rightarrow>
          (case flush ev stopChan st1 of
             Inl er \<Rightarrow> Inl er
           | Inr st2 \<Rightarrow> Inr (st2, rest)))"

text \<open>The stage before its first row.\<close>

definition newStage :: "Schema \<Rightarrow> TooLongBehavior \<Rightarrow> int \<Rightarrow> stage" where
  "newStage s b n =
     \<lparr>asTr = NewAutoSizingFWTTransformer s b n, outChan = [], badRowChan = [], polls = 0\<rparr>"

section \<open>Auxiliary notions and example inputs\<close>

subsection \<open>Notions used to state the properties of the projector\<close>

text \<open>An entry whose tag is in the requested-tag mapping.\<close>

definition requested :: "KVToSqlRowConverter \<Rightarrow> entry \<Rightarrow> bool" where
  "requested conv e = (case e of Entry t v \<Rightarrow> tagToSqlColIdx conv t \<noteq> None | _ \<Rightarrow> False)"

text \<open>A well-formed tuple: the cursor can decode every entry.\<close>

definition wf_tuple :: "entry list \<Rightarrow> bool" where
  "wf_tuple es = list_all (\<lambda>e. case e of Entry t v \<Rightarrow> True | _ \<Rightarrow> False) es"

text \<open>
  The full scan of a tuple, in the words of the spec: for each tag present in the
  requested-tag mapping, convert the raw value via the converter of the column at the
  mapped index and store the result at the mapped index; for each other tag, skip its
  value.  No early exit.
\<close>

fun fullScan :: "KVToSqlRowConverter \<Rightarrow> sql_value list \<Rightarrow> entry list \<Rightarrow> sql_value list" where
  "fullScan conv row [] = row"
| "fullScan conv row (Entry t v # es) =
     (case tagToSqlColIdx conv t of
        None \<Rightarrow> fullScan conv row es
      | Some i \<Rightarrow>
          fullScan conv (row[nat i := fst (ConvertNomsValueToValue (cols conv ! nat i) v)]) es)"
| "fullScan conv row (e # es) = fullScan conv row es"

text \<open>
  The exits of the scan on the maximum tag lose nothing: behind an entry whose tag
  reaches the maximum no requested entry follows, and an entry whose tag exceeds the
  maximum is not requested.
\<close>

fun cut_ok :: "KVToSqlRowConverter \<Rightarrow> tag \<Rightarrow> entry list \<Rightarrow> bool" where
  "cut_ok conv maxTag [] = True"
| "cut_ok conv maxTag (e # es) =
     ((maxTag \<le> entryTag e \<longrightarrow> filter (requested conv) es = []) \<and>
      (maxTag < entryTag e \<longrightarrow> \<not> requested conv e) \<and>
      cut_ok conv maxTag es)"

text \<open>
  The configuration the converter is written for: the mapping sends each requested tag
  to the position of its own column descriptor, and that position is inside the row.
\<close>

definition aligned :: "(tag \<rightharpoonup> int) \<Rightarrow> Column list \<Rightarrow> int \<Rightarrow> bool" where
  "aligned m cs n =
     (0 \<le> n \<and> (\<forall>t i. m t = Some i \<longrightarrow>
                 0 \<le> i \<and> i < int (length cs) \<and> i < n \<and> Tag (cs ! nat i) = t))"

text \<open>
  A key tuple that fits the schema: decodable, no tag twice, no tag equal to the largest
  64-bit number, and every requested tag in it is the tag of a key column.  A value
  tuple that fits the schema: decodable, tags strictly ascending, and every requested
  tag in it is the tag of a column outside the key.
\<close>

definition wf_key :: "(tag \<rightharpoonup> int) \<Rightarrow> Column list \<Rightarrow> entry list \<Rightarrow> bool" where
  "wf_key m cs ks =
     (wf_tuple ks \<and> distinct (map entryTag ks) \<and>
      (\<forall>e \<in> set ks. entryTag e \<noteq> 0xFFFFFFFFFFFFFFFF \<and>
         (\<forall>i. m (entryTag e) = Some i \<longrightarrow> IsPartOfPK (cs ! nat i))))"

definition wf_val :: "(tag \<rightharpoonup> int) \<Rightarrow> Column list \<Rightarrow> entry list \<Rightarrow> bool" where
  "wf_val m cs vs =
     (wf_tuple vs \<and> sorted_wrt (<) (map entryTag vs) \<and>
      (\<forall>e \<in> set vs. \<forall>i. m (entryTag e) = Some i \<longrightarrow> \<not> IsPartOfPK (cs ! nat i)))"

text \<open>The converters of the requested entries of a tuple return no error.\<close>

definition converts :: "(tag \<rightharpoonup> int) \<Rightarrow> Column list \<Rightarrow> entry list \<Rightarrow> bool" where
  "converts m cs es =
     (\<forall>e \<in> set es. \<forall>i. m (entryTag e) = Some i \<longrightarrow>
        snd (ConvertNomsValueToValue (cs ! nat i) (entryVal e)) = None)"

text \<open>
  The tuple that \<^verbatim>\<open>ConvertKVToSqlRow\<close> hands to the value scan for a value that is
  absent or a tuple.
\<close>

definition valTuple :: "val \<Rightarrow> Tuple" where
  "valTuple v = (case v of VTuple t \<Rightarrow> Some t | _ \<Rightarrow> None)"

subsection \<open>Notions used to state the properties of the width-sizing transform\<close>

text \<open>A value that the type assertion \<^verbatim>\<open>val.(types.String)\<close> rejects.\<close>

definition non_string :: "val \<Rightarrow> bool" where
  "non_string v = (case v of VString s \<Rightarrow> False | _ \<Rightarrow> True)"

text \<open>
  The measures (display widths when \<open>f\<close> is \<open>StringWidth\<close>, rune counts when \<open>f\<close> is
  \<open>RuneCount\<close>) of the non-null values that a row, and a list of rows, hold for a tag of
  the schema.
\<close>

definition observedIn :: "(string \<Rightarrow> nat) \<Rightarrow> Schema \<Rightarrow> Row \<Rightarrow> tag \<Rightarrow> int list" where
  "observedIn f s r t =
     (if t \<in> Tag ` set s
      then (case GetColVal r t of VString str \<Rightarrow> [int (f str)] | _ \<Rightarrow> [])
      else [])"

definition observed :: "(string \<Rightarrow> nat) \<Rightarrow> Schema \<Rightarrow> RowWithProps list \<Rightarrow> tag \<Rightarrow> int list" where
  "observed f s rs t = concat (map (\<lambda>r. observedIn f s (Row r) t) rs)"

text \<open>Every non-null value that a row holds for a column of the schema is a string.\<close>

definition all_strings :: "Schema \<Rightarrow> RowWithProps \<Rightarrow> bool" where
  "all_strings s r =
     list_all (\<lambda>col. IsNull (GetColVal (Row r) (Tag col)) \<or> \<not> non_string (GetColVal (Row r) (Tag col))) s"

text \<open>
  What passing rows through a formatter sends on the output queue and on the error
  queue: a row that the formatter rejects gives a failure that names this stage, a row
  for which it returns one result gives that result with the properties merged.
\<close>

definition sentOut :: "env \<Rightarrow> FWTTransformer \<Rightarrow> RowWithProps list \<Rightarrow> RowWithProps list" where
  "sentOut ev tr rs =
     concat (map (\<lambda>r. case Transform ev tr (Row r) (Props r) of
                          (rds, errMsg) \<Rightarrow>
                            if errMsg = [] \<and> length rds = 1
                            then [\<lparr>Row = RowData (rds ! 0),
                                   Props = (if PropertyUpdates (rds ! 0) \<noteq> []
                                            then Set_props (Props r) (PropertyUpdates (rds ! 0))
                                            else Props r)\<rparr>]
                            else []) rs)"

definition sentBad :: "env \<Rightarrow> FWTTransformer \<Rightarrow> RowWithProps list \<Rightarrow> TransformRowFailure list" where
  "sentBad ev tr rs =
     concat (map (\<lambda>r. case Transform ev tr (Row r) (Props r) of
                          (rds, errMsg) \<Rightarrow>
                            if errMsg \<noteq> []
                            then [\<lparr>FailedRow = Row r,
                                   TransformName = ''Auto Sizing Fixed Width Transform'',
                                   Details = errMsg\<rparr>]
                            else []) rs)"

subsection \<open>Example inputs\<close>

text \<open>A formatter that accepts every row unchanged, and one that returns no result.\<close>

definition ex_env :: env where
  "ex_env = \<lparr>StringWidth = length, RuneCount = length,
             Transform = (\<lambda>tr r ps. ([\<lparr>RowData = r, PropertyUpdates = []\<rparr>], []))\<rparr>"

definition ex_drop_env :: env where
  "ex_drop_env = \<lparr>StringWidth = length, RuneCount = length, Transform = (\<lambda>tr r ps. ([], []))\<rparr>"

definition ex_sch :: Schema where
  "ex_sch = [\<lparr>Tag = 1, IsPartOfPK = True, ConvertNomsValueToValue = (\<lambda>v. (SqlNil, None))\<rparr>]"

definition ex_row :: "string \<Rightarrow> RowWithProps" where
  "ex_row s = \<lparr>Row = [(1, VString s)], Props = []\<rparr>"

definition ex_tr :: FWTTransformer where
  "ex_tr = NewFWTTransformer (NewFWTSchemaWithWidths ex_sch Map.empty Map.empty) 0"

text \<open>A stage that has left sampling: no buffer, a formatter in place.\<close>

definition ex_materialized :: stage where
  "ex_materialized =
     \<lparr>asTr = (NewAutoSizingFWTTransformer ex_sch 0 0)\<lparr>rowBuffer := None, fwtTr := Some ex_tr\<rparr>,
      outChan = [], badRowChan = [], polls = 0\<rparr>"

text \<open>Two converters: one accepts strings, one accepts unsigned numbers.\<close>

definition conv_text :: "val \<Rightarrow> sql_value \<times> error option" where
  "conv_text v = (case v of VString s \<Rightarrow> (SqlText s, None)
                  | _ \<Rightarrow> (SqlNil, Some (Error ''not a string'')))"

definition conv_number :: "val \<Rightarrow> sql_value \<times> error option" where
  "conv_number v = (case v of VUint w \<Rightarrow> (SqlInt (uint w), None)
                    | _ \<Rightarrow> (SqlNil, Some (Error ''not a number'')))"

text \<open>
  A schema with the key columns id (tag 1) and region (tag 3) and the value columns
  name (tag 2) and age (tag 5); a key tuple and a value tuple of one of its rows.
\<close>

definition ex_id :: Column where
  "ex_id = \<lparr>Tag = 1, IsPartOfPK = True, ConvertNomsValueToValue = conv_text\<rparr>"

definition ex_name :: Column where
  "ex_name = \<lparr>Tag = 2, IsPartOfPK = False, ConvertNomsValueToValue = conv_text\<rparr>"

definition ex_age :: Column where
  "ex_age = \<lparr>Tag = 5, IsPartOfPK = False, ConvertNomsValueToValue = conv_number\<rparr>"

definition ex_region :: Column where
  "ex_region = \<lparr>Tag = 3, IsPartOfPK = True, ConvertNomsValueToValue = conv_text\<rparr>"

definition ex_cols :: "Column list" where
  "ex_cols = [ex_id, ex_name, ex_age, ex_region]"

definition ex_key :: "entry list" where
  "ex_key = [Entry 1 (VString ''k1''), Entry 3 (VString ''eu'')]"

definition ex_val :: "entry list" where
  "ex_val = [Entry 2 (VString ''Bob''), Entry 5 (VUint 30)]"

text \<open>A schema whose value column has the tag 0, with all columns requested.\<close>

definition ex_zero_cols :: "Column list" where
  "ex_zero_cols = [\<lparr>Tag = 0, IsPartOfPK = False, ConvertNomsValueToValue = conv_text\<rparr>, ex_id]"

text \<open>A value tuple whose age is not a number.\<close>

definition ex_bad_val :: "entry list" where
  "ex_bad_val = [Entry 2 (VString ''Bob''), Entry 5 (VString ''old'')]"

text \<open>A key tuple whose id is a number, which the converter of the id column rejects.\<close>

definition ex_num_key :: "entry list" where
  "ex_num_key = [Entry 1 (VUint 7), Entry 3 (VString ''eu'')]"

section \<open>Properties of the projector\<close>

subsection \<open>The full scan\<close>

lemma wf_tuple_Cons: "wf_tuple (e # es) \<longleftrightarrow> (\<exists>t v. e = Entry t v) \<and> wf_tuple es"
  by (cases e) (simp_all add: wf_tuple_def)

lemma requested_Entry: "requested conv (Entry t v) \<longleftrightarrow> tagToSqlColIdx conv t \<noteq> None"
  by (simp add: requested_def)

lemma fullScan_unrequested:
  "filter (requested conv) es = [] \<Longrightarrow> fullScan conv row es = row"
proof (induction es arbitrary: row)
  case Nil
  then show ?case by simp
next
  case (Cons e es)
  from Cons.prems have nr: "\<not> requested conv e" and rest: "filter (requested conv) es = []"
    by (auto split: if_splits)
  show ?case
  proof (cases e)
    case (Entry t v)
    with nr have "tagToSqlColIdx conv t = None" by (simp add: requested_def)
    with Entry Cons.IH[OF rest] show ?thesis by simp
  next
    case BadTag
    with Cons.IH[OF rest] show ?thesis by simp
  next
    case (BadVal t)
    with Cons.IH[OF rest] show ?thesis by simp
  qed
qed

subsection \<open>The steps of the scan\<close>

lemma loop_stop:
  "\<not> (filled < valsToFill \<and> tag64 < maxTag) \<Longrightarrow>
   processTuple_loop conv valsToFill maxTag row filled tag64 p cs es
     = \<lparr>scanRow = row, scanPos = p, scanCalls = cs, scanErr = None\<rparr>"
  by (cases es) auto

lemma loop_over:
  "filled < valsToFill \<Longrightarrow> tag64 < maxTag \<Longrightarrow> maxTag < t \<Longrightarrow>
   processTuple_loop conv valsToFill maxTag row filled tag64 p cs (Entry t v # es)
     = \<lparr>scanRow = row, scanPos = p + 1, scanCalls = cs, scanErr = None\<rparr>"
  by simp

lemma loop_skip:
  "filled < valsToFill \<Longrightarrow> tag64 < maxTag \<Longrightarrow> \<not> maxTag < t \<Longrightarrow>
   tagToSqlColIdx conv t = None \<Longrightarrow>
   processTuple_loop conv valsToFill maxTag row filled tag64 p cs (Entry t v # es)
     = processTuple_loop conv valsToFill maxTag row filled t (p + 2) cs es"
  by simp

lemma loop_fill:
  "filled < valsToFill \<Longrightarrow> tag64 < maxTag \<Longrightarrow> \<not> maxTag < t \<Longrightarrow>
   tagToSqlColIdx conv t = Some i \<Longrightarrow> 0 \<le> i \<Longrightarrow> i < int (length (cols conv)) \<Longrightarrow>
   i < int (length row) \<Longrightarrow> ConvertNomsValueToValue (cols conv ! nat i) v = (x, None) \<Longrightarrow>
   processTuple_loop conv valsToFill maxTag row filled tag64 p cs (Entry t v # es)
     = processTuple_loop conv valsToFill maxTag (row[nat i := x]) (filled + 1) t (p + 2)
         (cs @ [(nat i, v)]) es"
  by simp

lemma loop_fail:
  "filled < valsToFill \<Longrightarrow> tag64 < maxTag \<Longrightarrow> \<not> maxTag < t \<Longrightarrow>
   tagToSqlColIdx conv t = Some i \<Longrightarrow> 0 \<le> i \<Longrightarrow> i < int (length (cols conv)) \<Longrightarrow>
   i < int (length row) \<Longrightarrow> ConvertNomsValueToValue (cols conv ! nat i) v = (x, Some er) \<Longrightarrow>
   processTuple_loop conv valsToFill maxTag row filled tag64 p cs (Entry t v # es)
     = \<lparr>scanRow = row[nat i := x], scanPos = p + 2, scanCalls = cs @ [(nat i, v)],
        scanErr = Some er\<rparr>"
  by simp

lemma loop_panic_row:
  "filled < valsToFill \<Longrightarrow> tag64 < maxTag \<Longrightarrow> \<not> maxTag < t \<Longrightarrow>
   tagToSqlColIdx conv t = Some i \<Longrightarrow> 0 \<le> i \<Longrightarrow> i < int (length (cols conv)) \<Longrightarrow>
   int (length row) \<le> i \<Longrightarrow>
   processTuple_loop conv valsToFill maxTag row filled tag64 p cs (Entry t v # es)
     = \<lparr>scanRow = row, scanPos = p + 2, scanCalls = cs @ [(nat i, v)],
        scanErr = Some (Panic ''index out of range'')\<rparr>"
  by (simp split: prod.splits)

lemma loop_panic_cols:
  "filled < valsToFill \<Longrightarrow> tag64 < maxTag \<Longrightarrow> \<not> maxTag < t \<Longrightarrow>
   tagToSqlColIdx conv t = Some i \<Longrightarrow> i < 0 \<or> int (length (cols conv)) \<le> i \<Longrightarrow>
   processTuple_loop conv valsToFill maxTag row filled tag64 p cs (Entry t v # es)
     = \<lparr>scanRow = row, scanPos = p + 2, scanCalls = cs,
        scanErr = Some (Panic ''index out of range'')\<rparr>"
  by auto

lemma loop_bad_tag:
  "filled < valsToFill \<Longrightarrow> tag64 < maxTag \<Longrightarrow>
   processTuple_loop conv valsToFill maxTag row filled tag64 p cs (BadTag # es)
     = \<lparr>scanRow = row, scanPos = p, scanCalls = cs,
        scanErr = Some (Error ''cannot decode tag'')\<rparr>"
  by simp

lemma loop_bad_val:
  "filled < valsToFill \<Longrightarrow> tag64 < maxTag \<Longrightarrow> \<not> maxTag < t \<Longrightarrow>
   processTuple_loop conv valsToFill maxTag row filled tag64 p cs (BadVal t # es)
     = \<lparr>scanRow = row, scanPos = p + 1, scanCalls = cs,
        scanErr = Some (Error ''cannot decode value'')\<rparr>"
  by (simp split: option.splits)

lemma loop_bad_val_over:
  "filled < valsToFill \<Longrightarrow> tag64 < maxTag \<Longrightarrow> maxTag < t \<Longrightarrow>
   processTuple_loop conv valsToFill maxTag row filled tag64 p cs (BadVal t # es)
     = \<lparr>scanRow = row, scanPos = p + 1, scanCalls = cs, scanErr = None\<rparr>"
  by simp

declare processTuple_loop.simps(2) [simp del]

lemma length_fullScan: "length (fullScan conv row es) = length row"
proof (induction es arbitrary: row)
  case Nil
  then show ?case by simp
next
  case (Cons e es)
  then show ?case by (cases e) (auto split: option.splits)
qed

lemma fullScan_append: "fullScan conv row (es @ fs) = fullScan conv (fullScan conv row es) fs"
proof (induction es arbitrary: row)
  case Nil
  then show ?case by simp
next
  case (Cons e es)
  then show ?case by (cases e) (auto split: option.splits)
qed

text \<open>The scan against the full scan.\<close>

lemma processTuple_loop_fullScan:
  assumes "wf_tuple es"
      and "\<forall>e \<in> set es. \<forall>i. tagToSqlColIdx conv (entryTag e) = Some i \<longrightarrow>
             0 \<le> i \<and> i < int (length (cols conv)) \<and> i < int (length row) \<and>
             snd (ConvertNomsValueToValue (cols conv ! nat i) (entryVal e)) = None"
      and "int (length (filter (requested conv) es)) \<le> valsToFill - filled"
      and "maxTag \<le> tag64 \<longrightarrow> filter (requested conv) es = []"
      and "cut_ok conv maxTag es"
  shows "scanErr (processTuple_loop conv valsToFill maxTag row filled tag64 p cs es) = None \<and>
         scanRow (processTuple_loop conv valsToFill maxTag row filled tag64 p cs es)
           = fullScan conv row es"
  using assms
proof (induction es arbitrary: row filled tag64 p cs)
  case Nil
  then show ?case by simp
next
  case (Cons e es)
  from Cons.prems(1) obtain t v where e: "e = Entry t v" and wf: "wf_tuple es"
    by (auto simp add: wf_tuple_Cons)
  have rest: "\<forall>e \<in> set es. \<forall>i. tagToSqlColIdx conv (entryTag e) = Some i \<longrightarrow>
             0 \<le> i \<and> i < int (length (cols conv)) \<and> i < int (length row) \<and>
             snd (ConvertNomsValueToValue (cols conv ! nat i) (entryVal e)) = None"
    using Cons.prems(2) by simp
  have cut: "cut_ok conv maxTag es" using Cons.prems(5) by simp
  show ?case
  proof (cases "filled < valsToFill \<and> tag64 < maxTag")
    case False
    then have "filter (requested conv) (e # es) = []"
    proof (cases "filled < valsToFill")
      case True
      with False have "maxTag \<le> tag64" by simp
      with Cons.prems(4) show ?thesis by simp
    next
      case False
      with Cons.prems(3) have "int (length (filter (requested conv) (e # es))) \<le> 0" by linarith
      then show ?thesis by simp
    qed
    then have "fullScan conv row (e # es) = row" by (rule fullScan_unrequested)
    with loop_stop[OF False] show ?thesis by simp
  next
    case guard: True
    show ?thesis
    proof (cases "maxTag < t")
      case True
      with Cons.prems(5) e have "\<not> requested conv e" "filter (requested conv) es = []" by auto
      then have "filter (requested conv) (e # es) = []" by simp
      then have "fullScan conv row (e # es) = row" by (rule fullScan_unrequested)
      with guard True e show ?thesis by (simp add: loop_over)
    next
      case le: False
      have c1: "maxTag \<le> t \<longrightarrow> filter (requested conv) es = []"
        using Cons.prems(5) e by simp
      show ?thesis
      proof (cases "tagToSqlColIdx conv t")
        case None
        then have nr: "\<not> requested conv e" by (simp add: e requested_def)
        with Cons.prems(3) have cnt: "int (length (filter (requested conv) es)) \<le> valsToFill - filled"
          by simp
        from Cons.IH[OF wf rest cnt c1 cut, of "p + 2" cs]
        show ?thesis using guard le None e by (simp add: loop_skip)
      next
        case (Some i)
        then have r: "requested conv e" by (simp add: e requested_def)
        from Cons.prems(2) Some e have i: "0 \<le> i" "i < int (length (cols conv))" "i < int (length row)"
          and ok: "snd (ConvertNomsValueToValue (cols conv ! nat i) v) = None"
          by auto
        obtain x where cv: "ConvertNomsValueToValue (cols conv ! nat i) v = (x, None)"
          using ok by (cases "ConvertNomsValueToValue (cols conv ! nat i) v") auto
        from r Cons.prems(3) have cnt:
          "int (length (filter (requested conv) es)) \<le> valsToFill - (filled + 1)"
          by simp
        have rest': "\<forall>e \<in> set es. \<forall>j. tagToSqlColIdx conv (entryTag e) = Some j \<longrightarrow>
             0 \<le> j \<and> j < int (length (cols conv)) \<and> j < int (length (row[nat i := x])) \<and>
             snd (ConvertNomsValueToValue (cols conv ! nat j) (entryVal e)) = None"
          using rest by simp
        from Cons.IH[OF wf rest' cnt c1 cut, of "p + 2" "cs @ [(nat i, v)]"]
        show ?thesis using guard le Some e i cv by (simp add: loop_fill)
      qed
    qed
  qed
qed

subsection \<open>The slots of a full scan\<close>

lemma fullScan_other:
  "\<forall>t v i. Entry t v \<in> set es \<and> tagToSqlColIdx conv t = Some i \<longrightarrow> nat i \<noteq> j
    \<Longrightarrow> fullScan conv row es ! j = row ! j"
proof (induction es arbitrary: row)
  case Nil
  then show ?case by simp
next
  case (Cons e es)
  have rest: "\<forall>t v i. Entry t v \<in> set es \<and> tagToSqlColIdx conv t = Some i \<longrightarrow> nat i \<noteq> j"
    using Cons.prems by auto
  show ?case
  proof (cases e)
    case (Entry t v)
    show ?thesis
    proof (cases "tagToSqlColIdx conv t")
      case None
      with Entry Cons.IH[OF rest] show ?thesis by simp
    next
      case (Some i)
      with Cons.prems Entry have "nat i \<noteq> j" by auto
      with Entry Some Cons.IH[OF rest] show ?thesis by simp
    qed
  next
    case BadTag
    with Cons.IH[OF rest] show ?thesis by simp
  next
    case (BadVal t)
    with Cons.IH[OF rest] show ?thesis by simp
  qed
qed

lemma fullScan_hit:
  assumes "Entry t v \<in> set es"
      and "tagToSqlColIdx conv t = Some i"
      and "nat i < length row"
      and "distinct (map entryTag (filter (requested conv) es))"
      and "\<forall>t' i'. tagToSqlColIdx conv t' = Some i' \<and> nat i' = nat i \<longrightarrow> t' = t"
  shows "fullScan conv row es ! nat i = fst (ConvertNomsValueToValue (cols conv ! nat i) v)"
  using assms(1,3,4)
proof (induction es arbitrary: row)
  case Nil
  then show ?case by simp
next
  case (Cons e es)
  have dist: "distinct (map entryTag (filter (requested conv) es))"
    using Cons.prems(3) by (simp split: if_splits)
  show ?case
  proof (cases "e = Entry t v")
    case True
    have req: "requested conv e" using True assms(2) by (simp add: requested_def)
    have "\<forall>t' v' i'. Entry t' v' \<in> set es \<and> tagToSqlColIdx conv t' = Some i' \<longrightarrow> nat i' \<noteq> nat i"
    proof (intro allI impI, elim conjE)
      fix t' v' i'
      assume mem: "Entry t' v' \<in> set es" and m: "tagToSqlColIdx conv t' = Some i'"
      show "nat i' \<noteq> nat i"
      proof
        assume "nat i' = nat i"
        with m assms(5) have "t' = t" by blast
        with mem m have "Entry t v' \<in> set (filter (requested conv) es)"
          by (simp add: requested_def)
        then have "t \<in> entryTag ` set (filter (requested conv) es)" by force
        with Cons.prems(3) req True show False by simp
      qed
    qed
    from fullScan_other[OF this]
    have "fullScan conv (row[nat i := fst (ConvertNomsValueToValue (cols conv ! nat i) v)]) es ! nat i
          = (row[nat i := fst (ConvertNomsValueToValue (cols conv ! nat i) v)]) ! nat i" .
    with True assms(2) Cons.prems(2) show ?thesis by simp
  next
    case False
    with Cons.prems(1) have mem: "Entry t v \<in> set es" by simp
    show ?thesis
    proof (cases e)
      case (Entry t' v')
      show ?thesis
      proof (cases "tagToSqlColIdx conv t'")
        case None
        with Entry Cons.IH[OF mem Cons.prems(2) dist] show ?thesis by simp
      next
        case (Some i')
        have "nat i < length (row[nat i' := fst (ConvertNomsValueToValue (cols conv ! nat i') v')])"
          using Cons.prems(2) by simp
        from Cons.IH[OF mem this dist] Entry Some show ?thesis by simp
      qed
    next
      case BadTag
      with Cons.IH[OF mem Cons.prems(2) dist] show ?thesis by simp
    next
      case (BadVal t')
      with Cons.IH[OF mem Cons.prems(2) dist] show ?thesis by simp
    qed
  qed
qed

subsection \<open>The precomputed counts\<close>

lemma maxU64_ge: "c \<le> maxU64 c x" "x \<le> maxU64 c x"
  by (auto simp add: maxU64_def)

lemma getValLocations_loop_fromKey:
  "fst (getValLocations_loop m cs (a, b, c))
     = a + int (length (filter (\<lambda>col. m (Tag col) \<noteq> None \<and> IsPartOfPK col) cs))"
  by (induction cs arbitrary: a b c) auto

lemma getValLocations_loop_fromVal:
  "fst (snd (getValLocations_loop m cs (a, b, c)))
     = b + int (length (filter (\<lambda>col. m (Tag col) \<noteq> None \<and> \<not> IsPartOfPK col) cs))"
  by (induction cs arbitrary: a b c) auto

lemma getValLocations_loop_maxTag_mono:
  "c \<le> snd (snd (getValLocations_loop m cs (a, b, c)))"
proof (induction cs arbitrary: a b c)
  case Nil
  then show ?case by simp
next
  case (Cons col cs)
  have "c \<le> maxU64 c (Tag col)" by (rule maxU64_ge)
  also have "\<dots> \<le> snd (snd (getValLocations_loop m cs (a, b + 1, maxU64 c (Tag col))))"
    by (rule Cons.IH)
  finally show ?case using Cons.IH by auto
qed

lemma getValLocations_loop_maxTag:
  "col \<in> set cs \<Longrightarrow> m (Tag col) \<noteq> None \<Longrightarrow> \<not> IsPartOfPK col
    \<Longrightarrow> Tag col \<le> snd (snd (getValLocations_loop m cs (a, b, c)))"
proof (induction cs arbitrary: a b c)
  case Nil
  then show ?case by simp
next
  case (Cons c' cs)
  show ?case
  proof (cases "col = c'")
    case True
    have "Tag col \<le> maxU64 c (Tag col)" by (rule maxU64_ge)
    also have "\<dots> \<le> snd (snd (getValLocations_loop m cs (a, b + 1, maxU64 c (Tag col))))"
      by (rule getValLocations_loop_maxTag_mono)
    finally show ?thesis using True Cons.prems by auto
  next
    case False
    with Cons.prems have "col \<in> set cs" by simp
    from Cons.IH[OF this Cons.prems(2,3)] show ?thesis by auto
  qed
qed

lemma NewKVToSqlRowConverter_fields:
  "tagToSqlColIdx (NewKVToSqlRowConverter m cs n) = m"
  "cols (NewKVToSqlRowConverter m cs n) = cs"
  "rowSize (NewKVToSqlRowConverter m cs n) = n"
  "valsFromKey (NewKVToSqlRowConverter m cs n)
     = int (length (filter (\<lambda>col. m (Tag col) \<noteq> None \<and> IsPartOfPK col) cs))"
  "valsFromVal (NewKVToSqlRowConverter m cs n)
     = int (length (filter (\<lambda>col. m (Tag col) \<noteq> None \<and> \<not> IsPartOfPK col) cs))"
  "maxValTag (NewKVToSqlRowConverter m cs n) = snd (snd (getValLocations_loop m cs (0, 0, 0)))"
  using getValLocations_loop_fromKey[of m cs 0 0 0] getValLocations_loop_fromVal[of m cs 0 0 0]
  by (auto simp add: NewKVToSqlRowConverter_def getValLocations_def split: prod.splits)

text \<open>
  The requested entries of a tuple without repeated tags are not more than the requested
  columns of their kind.
\<close>

lemma requested_count:
  assumes al: "aligned m cs n"
      and m: "tagToSqlColIdx conv = m"
      and dist: "distinct (map entryTag es)"
      and kind: "\<forall>e \<in> set es. \<forall>i. m (entryTag e) = Some i \<longrightarrow> Q (cs ! nat i)"
  shows "length (filter (requested conv) es)
           \<le> length (filter (\<lambda>col. m (Tag col) \<noteq> None \<and> Q col) cs)"
proof -
  let ?R = "filter (requested conv) es"
  let ?F = "filter (\<lambda>col. m (Tag col) \<noteq> None \<and> Q col) cs"
  have "distinct (map entryTag ?R)" using dist by (rule distinct_map_filter)
  then have "length ?R = card (entryTag ` set ?R)"
    by (metis distinct_card length_map set_map)
  also have "\<dots> \<le> card (Tag ` set ?F)"
  proof (rule card_mono)
    show "finite (Tag ` set ?F)" by simp
    show "entryTag ` set ?R \<subseteq> Tag ` set ?F"
    proof
      fix t assume "t \<in> entryTag ` set ?R"
      then obtain e where e: "e \<in> set es" "requested conv e" "t = entryTag e" by auto
      from e(2) obtain t' v' where "e = Entry t' v'" "tagToSqlColIdx conv t' \<noteq> None"
        by (cases e) (simp_all add: requested_def)
      with e(3) m obtain i where i: "m t = Some i" by auto
      with al have r: "0 \<le> i" "i < int (length cs)" "Tag (cs ! nat i) = t"
        by (auto simp add: aligned_def)
      from kind e i have "Q (cs ! nat i)" by auto
      moreover from r have "cs ! nat i \<in> set cs" by simp
      ultimately have "cs ! nat i \<in> set ?F" using r i by simp
      with r show "t \<in> Tag ` set ?F" by force
    qed
  qed
  also have "\<dots> \<le> card (set ?F)" by (rule card_image_le) simp
  also have "\<dots> \<le> length ?F" by (rule card_length)
  finally show ?thesis .
qed

subsection \<open>The exits on the maximum tag\<close>

lemma max_tag: "(0xFFFFFFFFFFFFFFFF :: 64 word) = - 1"
  by simp

lemma cut_ok_key:
  "\<forall>e \<in> set ks. entryTag e \<noteq> 0xFFFFFFFFFFFFFFFF \<Longrightarrow> cut_ok conv 0xFFFFFFFFFFFFFFFF ks"
proof (induction ks)
  case Nil
  then show ?case by simp
next
  case (Cons e ks)
  then have "entryTag e \<noteq> - 1" by (simp add: max_tag)
  then have "\<not> (- 1 \<le> entryTag e)"
    by (simp add: word_order.extremum_unique)
  moreover from this have "\<not> (- 1 < entryTag e)" by simp
  moreover have "cut_ok conv (- 1) ks" using Cons by (simp add: max_tag)
  ultimately show ?case unfolding max_tag cut_ok.simps by blast
qed

lemma cut_ok_val:
  "sorted_wrt (<) (map entryTag vs) \<Longrightarrow> \<forall>e \<in> set vs. requested conv e \<longrightarrow> entryTag e \<le> maxTag
    \<Longrightarrow> cut_ok conv maxTag vs"
proof (induction vs)
  case Nil
  then show ?case by simp
next
  case (Cons e vs)
  have a: "maxTag \<le> entryTag e \<longrightarrow> filter (requested conv) vs = []"
  proof
    assume le: "maxTag \<le> entryTag e"
    have "\<forall>e' \<in> set vs. \<not> requested conv e'"
    proof
      fix e' assume mem: "e' \<in> set vs"
      with Cons.prems(1) have "entryTag e < entryTag e'" by auto
      with le have "maxTag < entryTag e'" by simp
      with Cons.prems(2) mem show "\<not> requested conv e'" by auto
    qed
    then show "filter (requested conv) vs = []" by (simp add: filter_empty_conv)
  qed
  have b: "maxTag < entryTag e \<longrightarrow> \<not> requested conv e" using Cons.prems(2) by auto
  from Cons have "cut_ok conv maxTag vs" by simp
  with a b show ?case by simp
qed

subsection \<open>The two scans of a conversion\<close>

lemma wf_tuple_Entry: "wf_tuple es \<Longrightarrow> e \<in> set es \<Longrightarrow> e = Entry (entryTag e) (entryVal e)"
  by (cases e) (auto simp add: wf_tuple_def list_all_iff)

lemma requested_iff: "wf_tuple es \<Longrightarrow> e \<in> set es \<Longrightarrow>
    requested conv e \<longleftrightarrow> tagToSqlColIdx conv (entryTag e) \<noteq> None"
  by (cases e) (auto simp add: wf_tuple_def list_all_iff requested_def)

lemma processTuple_absent:
  "processTuple conv row valsToFill maxTag None
     = \<lparr>scanRow = row, scanPos = 0, scanCalls = [], scanErr = None\<rparr>"
  by (simp add: processTuple_def InitForTuple_def)

lemma valScan_absent:
  "valScan conv row None = \<lparr>scanRow = row, scanPos = 0, scanCalls = [], scanErr = None\<rparr>"
  by (simp add: valScan_def processTuple_absent)

lemma keyScan_fullScan:
  assumes conv: "conv = NewKVToSqlRowConverter m cs n"
      and al: "aligned m cs n"
      and wf: "wf_key m cs ks"
      and cv: "converts m cs ks"
  shows "scanErr (keyScan conv ks) = None \<and>
         scanRow (keyScan conv ks) = fullScan conv (replicate (nat n) SqlNil) ks"
proof -
  let ?row = "replicate (nat n) SqlNil"
  have m: "tagToSqlColIdx conv = m" and c: "cols conv = cs" and n: "rowSize conv = n"
    by (simp_all add: conv NewKVToSqlRowConverter_fields)
  have wft: "wf_tuple ks" and dist: "distinct (map entryTag ks)"
    using wf by (simp_all add: wf_key_def)
  have kind: "\<forall>e \<in> set ks. \<forall>i. m (entryTag e) = Some i \<longrightarrow> IsPartOfPK (cs ! nat i)"
    using wf by (simp add: wf_key_def)
  have "length (filter (requested conv) ks)
          \<le> length (filter (\<lambda>col. m (Tag col) \<noteq> None \<and> IsPartOfPK col) cs)"
    using al m dist kind by (rule requested_count)
  then have cnt: "int (length (filter (requested conv) ks)) \<le> valsFromKey conv"
    by (simp add: conv NewKVToSqlRowConverter_fields)
  show ?thesis
  proof (cases "valsFromKey conv > 0")
    case True
    have rng: "\<forall>e \<in> set ks. \<forall>i. tagToSqlColIdx conv (entryTag e) = Some i \<longrightarrow>
             0 \<le> i \<and> i < int (length (cols conv)) \<and> i < int (length ?row) \<and>
             snd (ConvertNomsValueToValue (cols conv ! nat i) (entryVal e)) = None"
      using al cv by (auto simp add: m c aligned_def converts_def)
    have cnt': "int (length (filter (requested conv) ks)) \<le> valsFromKey conv - 0"
      using cnt by simp
    have c1: "(0xFFFFFFFFFFFFFFFF :: 64 word) \<le> 0 \<longrightarrow> filter (requested conv) ks = []"
      by simp
    have cut: "cut_ok conv 0xFFFFFFFFFFFFFFFF ks"
      using wf by (intro cut_ok_key) (simp add: wf_key_def)
    from processTuple_loop_fullScan[OF wft rng cnt' c1 cut, of 0 "[]"] True
    show ?thesis by (simp add: keyScan_def processTuple_def InitForTuple_def n)
  next
    case False
    with cnt have "int (length (filter (requested conv) ks)) \<le> 0" by linarith
    then have "filter (requested conv) ks = []" by simp
    then have "fullScan conv ?row ks = ?row" by (rule fullScan_unrequested)
    with False show ?thesis by (simp add: keyScan_def n)
  qed
qed

lemma valScan_fullScan:
  assumes conv: "conv = NewKVToSqlRowConverter m cs n"
      and al: "aligned m cs n"
      and wf: "wf_val m cs vs"
      and cv: "converts m cs vs"
      and len: "length row = nat n"
      and nz: "maxValTag conv = 0 \<longrightarrow> (\<forall>v. Entry 0 v \<in> set vs \<longrightarrow> m 0 = None)"
  shows "scanErr (valScan conv row (Some vs)) = None \<and>
         scanRow (valScan conv row (Some vs)) = fullScan conv row vs"
proof -
  have m: "tagToSqlColIdx conv = m" and c: "cols conv = cs" and n: "rowSize conv = n"
    by (simp_all add: conv NewKVToSqlRowConverter_fields)
  have wft: "wf_tuple vs" and srt: "sorted_wrt (<) (map entryTag vs)"
    using wf by (simp_all add: wf_val_def)
  have dist: "distinct (map entryTag vs)" using srt by (simp add: strict_sorted_iff)
  have kind: "\<forall>e \<in> set vs. \<forall>i. m (entryTag e) = Some i \<longrightarrow> \<not> IsPartOfPK (cs ! nat i)"
    using wf by (simp add: wf_val_def)
  have "length (filter (requested conv) vs)
          \<le> length (filter (\<lambda>col. m (Tag col) \<noteq> None \<and> \<not> IsPartOfPK col) cs)"
    using al m dist kind by (rule requested_count)
  then have cnt: "int (length (filter (requested conv) vs)) \<le> valsFromVal conv"
    by (simp add: conv NewKVToSqlRowConverter_fields)
  have below: "\<forall>e \<in> set vs. requested conv e \<longrightarrow> entryTag e \<le> maxValTag conv"
  proof (intro ballI impI)
    fix e assume e: "e \<in> set vs" and r: "requested conv e"
    from r requested_iff[OF wft e] m obtain i where i: "m (entryTag e) = Some i" by auto
    with al have ir: "0 \<le> i" "i < int (length cs)" "Tag (cs ! nat i) = entryTag e"
      by (auto simp add: aligned_def)
    from kind e i have "\<not> IsPartOfPK (cs ! nat i)" by blast
    moreover from ir have "cs ! nat i \<in> set cs" by simp
    moreover from i ir have "m (Tag (cs ! nat i)) \<noteq> None" by simp
    ultimately have "Tag (cs ! nat i) \<le> snd (snd (getValLocations_loop m cs (0, 0, 0)))"
      by (intro getValLocations_loop_maxTag)
    with ir show "entryTag e \<le> maxValTag conv"
      by (simp add: conv NewKVToSqlRowConverter_fields)
  qed
  show ?thesis
  proof (cases "valsFromVal conv > 0")
    case True
    have rng: "\<forall>e \<in> set vs. \<forall>i. tagToSqlColIdx conv (entryTag e) = Some i \<longrightarrow>
             0 \<le> i \<and> i < int (length (cols conv)) \<and> i < int (length row) \<and>
             snd (ConvertNomsValueToValue (cols conv ! nat i) (entryVal e)) = None"
      using al cv by (auto simp add: m c len aligned_def converts_def)
    have cnt': "int (length (filter (requested conv) vs)) \<le> valsFromVal conv - 0"
      using cnt by simp
    have c1: "maxValTag conv \<le> 0 \<longrightarrow> filter (requested conv) vs = []"
    proof
      assume "maxValTag conv \<le> 0"
      then have z: "maxValTag conv = 0" by simp
      have "\<forall>e \<in> set vs. \<not> requested conv e"
      proof
        fix e assume e: "e \<in> set vs"
        show "\<not> requested conv e"
        proof
          assume r: "requested conv e"
          with below e z have t: "entryTag e = 0" by auto
          from wf_tuple_Entry[OF wft e] t have "e = Entry 0 (entryVal e)" by simp
          with e have "Entry 0 (entryVal e) \<in> set vs" by simp
          with nz z have "m 0 = None" by blast
          with r requested_iff[OF wft e] t m show False by simp
        qed
      qed
      then show "filter (requested conv) vs = []" by (simp add: filter_empty_conv)
    qed
    have cut: "cut_ok conv (maxValTag conv) vs" using srt below by (rule cut_ok_val)
    from processTuple_loop_fullScan[OF wft rng cnt' c1 cut, of 0 "[]"] True
    show ?thesis by (simp add: valScan_def processTuple_def InitForTuple_def)
  next
    case False
    with cnt have "int (length (filter (requested conv) vs)) \<le> 0" by linarith
    then have "filter (requested conv) vs = []" by simp
    then have "fullScan conv row vs = row" by (rule fullScan_unrequested)
    with False show ?thesis by (simp add: valScan_def)
  qed
qed

subsection \<open>The row of a conversion\<close>

lemma aligned_inj:
  assumes "aligned m cs n" and "m t = Some i" and "m t' = Some i'" and "nat i' = nat i"
  shows "t' = t"
proof -
  from assms(1,2) have "Tag (cs ! nat i) = t" by (simp add: aligned_def)
  moreover from assms(1,3) have "Tag (cs ! nat i') = t'" by (simp add: aligned_def)
  ultimately show ?thesis using assms(4) by simp
qed

lemma requested_distinct_append:
  assumes m: "tagToSqlColIdx conv = m"
      and k: "wf_key m cs ks"
      and v: "wf_val m cs vs"
  shows "distinct (map entryTag (filter (requested conv) (ks @ vs)))"
proof -
  have wk: "wf_tuple ks" and wv: "wf_tuple vs"
    using k v by (simp_all add: wf_key_def wf_val_def)
  have dk: "distinct (map entryTag (filter (requested conv) ks))"
    using k by (intro distinct_map_filter) (simp add: wf_key_def)
  have "distinct (map entryTag vs)" using v by (simp add: wf_val_def strict_sorted_iff)
  then have dv: "distinct (map entryTag (filter (requested conv) vs))"
    by (rule distinct_map_filter)
  have "entryTag ` set (filter (requested conv) ks) \<inter> entryTag ` set (filter (requested conv) vs) = {}"
  proof (rule ccontr)
    assume "\<not> ?thesis"
    then obtain e e' where e: "e \<in> set ks" "requested conv e"
      and e': "e' \<in> set vs" "requested conv e'" and eq: "entryTag e = entryTag e'"
      by auto
    from e requested_iff[OF wk e(1)] m obtain i where i: "m (entryTag e) = Some i" by auto
    with k e have "IsPartOfPK (cs ! nat i)" by (auto simp add: wf_key_def)
    moreover from v e' i eq have "\<not> IsPartOfPK (cs ! nat i)" by (auto simp add: wf_val_def)
    ultimately show False by simp
  qed
  with dk dv show ?thesis by simp
qed

text \<open>
  C1, as the code has it.  Let the converter be built by \<^verbatim>\<open>NewKVToSqlRowConverter\<close> from a
  mapping that sends each requested tag to the position of its own column descriptor,
  inside the row; let the key tuple and the value tuple fit the schema, and let the
  converters of the requested entries return no error.  Unless the largest requested
  value tag is 0 and the value tuple has a requested entry with tag 0, the call returns
  a row of \<open>rowSize\<close> slots and no error; the slot of every requested tag present in one of
  the tuples holds what the converter of that tag's column makes of the stored value,
  and every slot to which no present tag is mapped holds nil.
\<close>

theorem ConvertKVToSqlRow_row:
  assumes conv: "conv = NewKVToSqlRowConverter m cs n"
      and al: "aligned m cs n"
      and k: "wf_key m cs ks"
      and v: "wf_val m cs vs"
      and cv: "converts m cs (ks @ vs)"
      and nz: "maxValTag conv = 0 \<longrightarrow> (\<forall>x. Entry 0 x \<in> set vs \<longrightarrow> m 0 = None)"
  shows "\<exists>row. resRow (ConvertKVToSqlRow conv (VTuple ks) (VTuple vs)) = Some row \<and>
           resErr (ConvertKVToSqlRow conv (VTuple ks) (VTuple vs)) = None \<and>
           length row = nat n \<and>
           (\<forall>t x i. Entry t x \<in> set (ks @ vs) \<and> m t = Some i \<longrightarrow>
              row ! nat i = fst (ConvertNomsValueToValue (cs ! nat i) x)) \<and>
           (\<forall>j < nat n. (\<forall>t x. Entry t x \<in> set (ks @ vs) \<longrightarrow> m t \<noteq> Some (int j)) \<longrightarrow>
              row ! j = SqlNil)"
proof -
  let ?nils = "replicate (nat n) SqlNil"
  let ?res = "fullScan conv ?nils (ks @ vs)"
  have m: "tagToSqlColIdx conv = m" and c: "cols conv = cs" and n: "rowSize conv = n"
    by (simp_all add: conv NewKVToSqlRowConverter_fields)
  have n0: "0 \<le> n" using al by (simp add: aligned_def)
  have cvk: "converts m cs ks" and cvv: "converts m cs vs"
    using cv by (simp_all add: converts_def)
  have ks: "scanErr (keyScan conv ks) = None"
    "scanRow (keyScan conv ks) = fullScan conv ?nils ks"
    using keyScan_fullScan[OF conv al k cvk] by simp_all
  have len: "length (fullScan conv ?nils ks) = nat n" by (simp add: length_fullScan)
  have vs: "scanErr (valScan conv (fullScan conv ?nils ks) (Some vs)) = None"
    "scanRow (valScan conv (fullScan conv ?nils ks) (Some vs)) = ?res"
    using valScan_fullScan[OF conv al v cvv len nz] by (simp_all add: fullScan_append)
  have res: "resRow (ConvertKVToSqlRow conv (VTuple ks) (VTuple vs)) = Some ?res"
    "resErr (ConvertKVToSqlRow conv (VTuple ks) (VTuple vs)) = None"
    using ks vs n0 by (simp_all add: ConvertKVToSqlRow_def IsNull_def n Let_def)
  have dist: "distinct (map entryTag (filter (requested conv) (ks @ vs)))"
    using m k v by (rule requested_distinct_append)
  have hit: "\<forall>t x i. Entry t x \<in> set (ks @ vs) \<and> m t = Some i \<longrightarrow>
              ?res ! nat i = fst (ConvertNomsValueToValue (cs ! nat i) x)"
  proof (intro allI impI, elim conjE)
    fix t x i
    assume mem: "Entry t x \<in> set (ks @ vs)" and i: "m t = Some i"
    from al i have "0 \<le> i \<and> i < n" by (simp add: aligned_def)
    then have h2: "nat i < length ?nils" by simp
    have h1: "tagToSqlColIdx conv t = Some i" using i by (simp add: m)
    have h3: "\<forall>t' i'. tagToSqlColIdx conv t' = Some i' \<and> nat i' = nat i \<longrightarrow> t' = t"
    proof (intro allI impI, elim conjE)
      fix t' i'
      assume "tagToSqlColIdx conv t' = Some i'" and "nat i' = nat i"
      then show "t' = t" using aligned_inj[OF al i, of t' i'] by (simp add: m)
    qed
    from fullScan_hit[OF mem h1 h2 dist h3]
    show "?res ! nat i = fst (ConvertNomsValueToValue (cs ! nat i) x)" by (simp add: c)
  qed
  have miss: "\<forall>j < nat n. (\<forall>t x. Entry t x \<in> set (ks @ vs) \<longrightarrow> m t \<noteq> Some (int j)) \<longrightarrow>
              ?res ! j = SqlNil"
  proof (intro allI impI)
    fix j
    assume j: "j < nat n" and no: "\<forall>t x. Entry t x \<in> set (ks @ vs) \<longrightarrow> m t \<noteq> Some (int j)"
    have "\<forall>t x i. Entry t x \<in> set (ks @ vs) \<and> tagToSqlColIdx conv t = Some i \<longrightarrow> nat i \<noteq> j"
    proof (intro allI impI, elim conjE)
      fix t x i
      assume mem: "Entry t x \<in> set (ks @ vs)" and i: "tagToSqlColIdx conv t = Some i"
      with al have "0 \<le> i" by (auto simp add: aligned_def m)
      moreover from no mem i have "i \<noteq> int j" by (auto simp add: m)
      ultimately show "nat i \<noteq> j" by auto
    qed
    from fullScan_other[OF this] j show "?res ! j = SqlNil" by simp
  qed
  from res hit miss show ?thesis by (simp add: length_fullScan)
qed

lemmas ex_defs = ex_cols_def ex_id_def ex_name_def ex_age_def ex_region_def ex_key_def ex_val_def
  conv_text_def conv_number_def

lemmas run_defs = ConvertKVToSqlRow_def keyScan_def valScan_def processTuple_def InitForTuple_def
  IsNull_def NewKVToSqlRowConverter_def getValLocations_def maxU64_def Let_def
  processTuple_loop.simps(2)

text \<open>
  The theorem at a run: the columns id and age of the example schema are requested
  into a row of four slots.
\<close>

theorem ConvertKVToSqlRow_row_witness:
  "\<exists>row. resRow (ConvertKVToSqlRow (NewKVToSqlRowConverter [1 \<mapsto> 0, 5 \<mapsto> 2] ex_cols 4)
                   (VTuple ex_key) (VTuple ex_val)) = Some row \<and>
         length row = 4 \<and> row ! 0 = SqlText ''k1'' \<and> row ! 2 = SqlInt 30 \<and>
         row ! 1 = SqlNil \<and> row ! 3 = SqlNil"
proof -
  let ?m = "[1 \<mapsto> 0, 5 \<mapsto> 2] :: tag \<rightharpoonup> int"
  let ?conv = "NewKVToSqlRowConverter ?m ex_cols 4"
  have al: "aligned ?m ex_cols 4"
    by (auto simp add: aligned_def ex_defs split: if_splits)
  have k: "wf_key ?m ex_cols ex_key"
    by (auto simp add: wf_key_def wf_tuple_def ex_defs)
  have v: "wf_val ?m ex_cols ex_val"
    by (auto simp add: wf_val_def wf_tuple_def ex_defs)
  have cv: "converts ?m ex_cols (ex_key @ ex_val)"
    by (auto simp add: converts_def ex_defs)
  have nz: "maxValTag ?conv = 0 \<longrightarrow> (\<forall>x. Entry 0 x \<in> set ex_val \<longrightarrow> ?m 0 = None)"
    by (simp add: ex_val_def)
  from ConvertKVToSqlRow_row[OF refl al k v cv nz] obtain row where
    r: "resRow (ConvertKVToSqlRow ?conv (VTuple ex_key) (VTuple ex_val)) = Some row"
    and len: "length row = nat 4"
    and hit: "\<forall>t x i. Entry t x \<in> set (ex_key @ ex_val) \<and> ?m t = Some i \<longrightarrow>
              row ! nat i = fst (ConvertNomsValueToValue (ex_cols ! nat i) x)"
    and miss: "\<forall>j < nat 4. (\<forall>t x. Entry t x \<in> set (ex_key @ ex_val) \<longrightarrow> ?m t \<noteq> Some (int j)) \<longrightarrow>
              row ! j = SqlNil"
    by blast
  from hit[rule_format, of 1 "VString ''k1''" 0] have s0: "row ! 0 = SqlText ''k1''"
    by (simp add: ex_defs)
  from hit[rule_format, of 5 "VUint 30" 2] have s2: "row ! 2 = SqlInt 30"
    by (simp add: ex_defs)
  from miss[rule_format, of 1] have s1: "row ! 1 = SqlNil"
    by (simp add: ex_defs)
  from miss[rule_format, of 3] have s3: "row ! 3 = SqlNil"
    by (simp add: ex_defs)
  from r len s0 s1 s2 s3 show ?thesis by simp
qed

text \<open>
  Without the alignment the statement fails.  With the age column (tag 5) requested
  into slot 1 of a row of two slots, over the four column descriptors of the example
  schema, the value stored under tag 5 goes through the converter of the descriptor at
  position 1, which is the name column; that converter rejects the number, and the
  call returns an error and no row, although the converter of the age column accepts
  the value.
\<close>

theorem ConvertKVToSqlRow_other_column_converter:
  "resRow (ConvertKVToSqlRow (NewKVToSqlRowConverter [5 \<mapsto> 1] ex_cols 2)
             (VTuple ex_key) (VTuple ex_val)) = None \<and>
   resErr (ConvertKVToSqlRow (NewKVToSqlRowConverter [5 \<mapsto> 1] ex_cols 2)
             (VTuple ex_key) (VTuple ex_val)) = Some (Error ''not a string'') \<and>
   Entry 5 (VUint 30) \<in> set ex_val \<and>
   ConvertNomsValueToValue ex_age (VUint 30) = (SqlInt 30, None)"
  by (simp add: run_defs ex_defs)

subsection \<open>Where a scan stops\<close>

lemma processTuple_loop_pos:
  assumes "wf_tuple es"
      and "\<forall>e \<in> set es. entryTag e < maxTag"
      and "tag64 < maxTag"
      and "filled \<le> valsToFill"
      and "scanErr (processTuple_loop conv valsToFill maxTag row filled tag64 p cs es) = None"
  shows "\<exists>k \<le> length es.
           scanPos (processTuple_loop conv valsToFill maxTag row filled tag64 p cs es) = p + 2 * k \<and>
           (k = length es \<or>
            filled + int (length (filter (requested conv) (take k es))) = valsToFill) \<and>
           (\<forall>j < k. filled + int (length (filter (requested conv) (take j es))) < valsToFill)"
  using assms
proof (induction es arbitrary: row filled tag64 p cs)
  case Nil
  then show ?case by simp
next
  case (Cons e es)
  from Cons.prems(1) obtain t v where e: "e = Entry t v" and wf: "wf_tuple es"
    by (auto simp add: wf_tuple_Cons)
  from Cons.prems(2) e have t: "t < maxTag" and below: "\<forall>e \<in> set es. entryTag e < maxTag"
    by simp_all
  then have nt: "\<not> maxTag < t" by simp
  show ?case
  proof (cases "filled < valsToFill")
    case False
    with Cons.prems(4) have eq: "filled = valsToFill" by simp
    from False have "\<not> (filled < valsToFill \<and> tag64 < maxTag)" by simp
    from loop_stop[OF this]
    have "scanPos (processTuple_loop conv valsToFill maxTag row filled tag64 p cs (e # es)) = p"
      by simp
    with eq show ?thesis by (intro exI[of _ 0]) simp
  next
    case guard: True
    note g = guard Cons.prems(3) nt
    show ?thesis
    proof (cases "tagToSqlColIdx conv t")
      case None
      then have nr: "\<not> requested conv e" by (simp add: e requested_def)
      have step: "processTuple_loop conv valsToFill maxTag row filled tag64 p cs (e # es)
                  = processTuple_loop conv valsToFill maxTag row filled t (p + 2) cs es"
        unfolding e using g None by (rule loop_skip)
      from Cons.prems(5) step
      have "scanErr (processTuple_loop conv valsToFill maxTag row filled t (p + 2) cs es) = None"
        by simp
      from Cons.IH[OF wf below t Cons.prems(4) this] obtain k where k: "k \<le> length es"
        "scanPos (processTuple_loop conv valsToFill maxTag row filled t (p + 2) cs es)
           = p + 2 + 2 * k"
        "k = length es \<or>
           filled + int (length (filter (requested conv) (take k es))) = valsToFill"
        "\<forall>j < k. filled + int (length (filter (requested conv) (take j es))) < valsToFill"
        by auto
      have all: "\<forall>j < Suc k.
          filled + int (length (filter (requested conv) (take j (e # es)))) < valsToFill"
      proof (intro allI impI)
        fix j assume j: "j < Suc k"
        show "filled + int (length (filter (requested conv) (take j (e # es)))) < valsToFill"
        proof (cases j)
          case 0
          with guard show ?thesis by simp
        next
          case (Suc j')
          with j k(4) have "filled + int (length (filter (requested conv) (take j' es))) < valsToFill"
            by simp
          with Suc nr show ?thesis by simp
        qed
      qed
      show ?thesis
      proof (intro exI[of _ "Suc k"] conjI)
        show "Suc k \<le> length (e # es)" using k(1) by simp
        show "scanPos (processTuple_loop conv valsToFill maxTag row filled tag64 p cs (e # es))
                = p + 2 * Suc k"
          using step k(2) by simp
        show "Suc k = length (e # es) \<or>
           filled + int (length (filter (requested conv) (take (Suc k) (e # es)))) = valsToFill"
          using k(3) nr by simp
        show "\<forall>j < Suc k.
          filled + int (length (filter (requested conv) (take j (e # es)))) < valsToFill"
          by (rule all)
      qed
    next
      case (Some i)
      then have r: "requested conv e" by (simp add: e requested_def)
      have inr: "0 \<le> i \<and> i < int (length (cols conv))"
      proof (rule ccontr)
        assume "\<not> ?thesis"
        then have "i < 0 \<or> int (length (cols conv)) \<le> i" by linarith
        from loop_panic_cols[OF g Some this] Cons.prems(5) e show False by simp
      qed
      have inrow: "i < int (length row)"
      proof (rule ccontr)
        assume "\<not> ?thesis"
        then have "int (length row) \<le> i" by simp
        from loop_panic_row[OF g Some _ _ this] inr Cons.prems(5) e show False by simp
      qed
      obtain x cerr where cv: "ConvertNomsValueToValue (cols conv ! nat i) v = (x, cerr)"
        by (cases "ConvertNomsValueToValue (cols conv ! nat i) v")
      have ok: "cerr = None"
      proof (cases cerr)
        case None
        then show ?thesis .
      next
        case (Some er)
        with cv have "ConvertNomsValueToValue (cols conv ! nat i) v = (x, Some er)" by simp
        from loop_fail[OF g \<open>tagToSqlColIdx conv t = Some i\<close> _ _ inrow this] inr
          Cons.prems(5) e show ?thesis by simp
      qed
      with cv have cv': "ConvertNomsValueToValue (cols conv ! nat i) v = (x, None)" by simp
      have step: "processTuple_loop conv valsToFill maxTag row filled tag64 p cs (e # es)
                  = processTuple_loop conv valsToFill maxTag (row[nat i := x]) (filled + 1) t
                      (p + 2) (cs @ [(nat i, v)]) es"
        unfolding e using g Some inr inrow cv' by (intro loop_fill) simp_all
      from Cons.prems(5) step
      have noerr: "scanErr (processTuple_loop conv valsToFill maxTag (row[nat i := x]) (filled + 1) t
                      (p + 2) (cs @ [(nat i, v)]) es) = None"
        by simp
      from guard have le: "filled + 1 \<le> valsToFill" by simp
      from Cons.IH[OF wf below t le noerr] obtain k where k: "k \<le> length es"
        "scanPos (processTuple_loop conv valsToFill maxTag (row[nat i := x]) (filled + 1) t
                      (p + 2) (cs @ [(nat i, v)]) es) = p + 2 + 2 * k"
        "k = length es \<or>
           filled + 1 + int (length (filter (requested conv) (take k es))) = valsToFill"
        "\<forall>j < k. filled + 1 + int (length (filter (requested conv) (take j es))) < valsToFill"
        by auto
      have all: "\<forall>j < Suc k.
          filled + int (length (filter (requested conv) (take j (e # es)))) < valsToFill"
      proof (intro allI impI)
        fix j assume j: "j < Suc k"
        show "filled + int (length (filter (requested conv) (take j (e # es)))) < valsToFill"
        proof (cases j)
          case 0
          with guard show ?thesis by simp
        next
          case (Suc j')
          with j k(4)
          have "filled + 1 + int (length (filter (requested conv) (take j' es))) < valsToFill"
            by simp
          with Suc r show ?thesis by simp
        qed
      qed
      show ?thesis
      proof (intro exI[of _ "Suc k"] conjI)
        show "Suc k \<le> length (e # es)" using k(1) by simp
        show "scanPos (processTuple_loop conv valsToFill maxTag row filled tag64 p cs (e # es))
                = p + 2 * Suc k"
          using step k(2) by simp
        show "Suc k = length (e # es) \<or>
           filled + int (length (filter (requested conv) (take (Suc k) (e # es)))) = valsToFill"
          using k(3) r by auto
        show "\<forall>j < Suc k.
          filled + int (length (filter (requested conv) (take j (e # es)))) < valsToFill"
          by (rule all)
      qed
    qed
  qed
qed


text \<open>
  C2 fails as stated: the loop guard \<^verbatim>\<open>filled < valsToFill\<close> applies to the key tuple
  too.  With only the key column id (tag 1) requested, the scan of the key tuple with
  the tags 1 and 3 stops behind the first entry: the cursor has consumed two of the
  four values, and the entry with tag 3 is not visited.
\<close>

theorem keyScan_stops_when_filled:
  "0 < valsFromKey (NewKVToSqlRowConverter [1 \<mapsto> 0] ex_cols 4) \<and>
   scanErr (keyScan (NewKVToSqlRowConverter [1 \<mapsto> 0] ex_cols 4) ex_key) = None \<and>
   scanPos (keyScan (NewKVToSqlRowConverter [1 \<mapsto> 0] ex_cols 4) ex_key) = 2 \<and>
   length ex_key = 2"
  by (simp add: run_defs ex_defs)

text \<open>
  C2, as the code has it.  When at least one key column is requested, the scan of a
  well-formed key tuple whose tags are below the largest 64-bit number, if it returns
  no error, reads the entries from the start and in order, with no cut-off on the tag:
  it consumes \<open>k\<close> whole entries, where either \<open>k\<close> is the length of the tuple, or the
  first \<open>k\<close> entries hold exactly as many requested entries as key columns are
  requested; and no shorter prefix holds that many.
\<close>

theorem keyScan_stops:
  assumes "wf_tuple ks"
      and "\<forall>e \<in> set ks. entryTag e \<noteq> 0xFFFFFFFFFFFFFFFF"
      and "0 < valsFromKey conv"
      and "scanErr (keyScan conv ks) = None"
  shows "\<exists>k \<le> length ks.
           scanPos (keyScan conv ks) = 2 * k \<and>
           (k = length ks \<or>
            int (length (filter (requested conv) (take k ks))) = valsFromKey conv) \<and>
           (\<forall>j < k. int (length (filter (requested conv) (take j ks))) < valsFromKey conv)"
proof -
  let ?nils = "replicate (nat (rowSize conv)) SqlNil"
  have run: "keyScan conv ks
      = processTuple_loop conv (valsFromKey conv) 0xFFFFFFFFFFFFFFFF ?nils 0 0 0 [] ks"
    using assms(3) by (simp add: keyScan_def processTuple_def InitForTuple_def)
  have below: "\<forall>e \<in> set ks. entryTag e < 0xFFFFFFFFFFFFFFFF"
  proof
    fix e assume "e \<in> set ks"
    with assms(2) have "entryTag e \<noteq> - 1" by (simp add: max_tag)
    then have "entryTag e < - 1" by (simp add: word_order.not_eq_extremum)
    then show "entryTag e < 0xFFFFFFFFFFFFFFFF" by (simp add: max_tag)
  qed
  have z: "(0::64 word) < 0xFFFFFFFFFFFFFFFF" by simp
  have le: "(0::int) \<le> valsFromKey conv" using assms(3) by simp
  have noerr: "scanErr (processTuple_loop conv (valsFromKey conv) 0xFFFFFFFFFFFFFFFF ?nils 0 0 0 []
                 ks) = None"
    using assms(4) run by simp
  from processTuple_loop_pos[OF assms(1) below z le noerr] show ?thesis
    unfolding run by simp
qed

theorem keyScan_stops_witness:
  "\<exists>k \<le> length ex_key.
     scanPos (keyScan (NewKVToSqlRowConverter [1 \<mapsto> 0] ex_cols 4) ex_key) = 2 * k \<and>
     (k = length ex_key \<or>
      int (length (filter (requested (NewKVToSqlRowConverter [1 \<mapsto> 0] ex_cols 4))
                    (take k ex_key)))
        = valsFromKey (NewKVToSqlRowConverter [1 \<mapsto> 0] ex_cols 4))"
proof -
  let ?conv = "NewKVToSqlRowConverter [1 \<mapsto> 0] ex_cols 4"
  have a: "wf_tuple ex_key" by (simp add: wf_tuple_def ex_defs)
  have b: "\<forall>e \<in> set ex_key. entryTag e \<noteq> 0xFFFFFFFFFFFFFFFF" by (simp add: ex_defs)
  have c: "0 < valsFromKey ?conv" by (simp add: run_defs ex_defs)
  have d: "scanErr (keyScan ?conv ex_key) = None" by (simp add: run_defs ex_defs)
  from keyScan_stops[OF a b c d] show ?thesis by blast
qed

subsection \<open>The value scan when the largest requested value tag is 0\<close>

lemma replicate_small: "replicate 2 x = [x, x]" "replicate 4 x = [x, x, x, x]"
  by (simp_all add: eval_nat_numeral)

text \<open>
  C3.  The schema has the value column with tag 0 and the key column with tag 1, and
  all columns are requested, so the precomputed maximum requested value tag is 0.  The
  loop guard \<^verbatim>\<open>tag64 < maxTag\<close> is false before the first entry is read: the value scan
  consumes nothing and leaves the slot of tag 0 at nil, where the full scan of the same
  value tuple stores the converted value.
\<close>

theorem valScan_max_tag_zero:
  "maxValTag (NewKVToSqlRowConverterForCols ex_zero_cols) = 0 \<and>
   scanPos (valScan (NewKVToSqlRowConverterForCols ex_zero_cols) [SqlNil, SqlText ''k1'']
              (Some [Entry 0 (VString ''x'')])) = 0 \<and>
   scanRow (valScan (NewKVToSqlRowConverterForCols ex_zero_cols) [SqlNil, SqlText ''k1'']
              (Some [Entry 0 (VString ''x'')])) = [SqlNil, SqlText ''k1''] \<and>
   fullScan (NewKVToSqlRowConverterForCols ex_zero_cols) [SqlNil, SqlText ''k1'']
              [Entry 0 (VString ''x'')] = [SqlText ''x'', SqlText ''k1''] \<and>
   resRow (ConvertKVToSqlRow (NewKVToSqlRowConverterForCols ex_zero_cols)
             (VTuple [Entry 1 (VString ''k1'')]) (VTuple [Entry 0 (VString ''x'')]))
     = Some [SqlNil, SqlText ''k1'']"
  by (simp add: run_defs ex_defs NewKVToSqlRowConverterForCols_def ex_zero_cols_def
      replicate_small)

subsection \<open>Failing converters\<close>

text \<open>A converter invocation of the log that returned an error.\<close>

lemma processTuple_loop_cases:
  obtains (bad_tag) "e = BadTag"
    | (bad_val) t where "e = BadVal t"
    | (over) t v where "e = Entry t v" "maxTag < t"
    | (skip) t v where "e = Entry t v" "\<not> maxTag < t" "tagToSqlColIdx conv t = None"
    | (panic_cols) t v i where "e = Entry t v" "\<not> maxTag < t" "tagToSqlColIdx conv t = Some i"
        "i < 0 \<or> int (length (cols conv)) \<le> i"
    | (panic_row) t v i where "e = Entry t v" "\<not> maxTag < t" "tagToSqlColIdx conv t = Some i"
        "0 \<le> i" "i < int (length (cols conv))" "int (length row) \<le> i"
    | (fail) t v i x er where "e = Entry t v" "\<not> maxTag < t" "tagToSqlColIdx conv t = Some i"
        "0 \<le> i" "i < int (length (cols conv))" "i < int (length row)"
        "ConvertNomsValueToValue (cols conv ! nat i) v = (x, Some er)"
    | (fill) t v i x where "e = Entry t v" "\<not> maxTag < t" "tagToSqlColIdx conv t = Some i"
        "0 \<le> i" "i < int (length (cols conv))" "i < int (length row)"
        "ConvertNomsValueToValue (cols conv ! nat i) v = (x, None)"
proof (cases e)
  case (Entry t v)
  show ?thesis
  proof (cases "maxTag < t")
    case True
    with Entry over show ?thesis by blast
  next
    case nt: False
    show ?thesis
    proof (cases "tagToSqlColIdx conv t")
      case None
      with Entry nt skip show ?thesis by blast
    next
      case (Some i)
      show ?thesis
      proof (cases "i < 0 \<or> int (length (cols conv)) \<le> i")
        case True
        with Entry nt Some panic_cols show ?thesis by blast
      next
        case False
        then have r: "0 \<le> i" "i < int (length (cols conv))" by simp_all
        show ?thesis
        proof (cases "int (length row) \<le> i")
          case True
          with Entry nt Some r panic_row show ?thesis by blast
        next
          case False
          then have ir: "i < int (length row)" by simp
          obtain x cerr where cv: "ConvertNomsValueToValue (cols conv ! nat i) v = (x, cerr)"
            by (cases "ConvertNomsValueToValue (cols conv ! nat i) v")
          show ?thesis
          proof (cases cerr)
            case None
            with Entry nt Some r ir cv fill show ?thesis by blast
          next
            case (Some er)
            with Entry nt \<open>tagToSqlColIdx conv t = Some i\<close> r ir cv fail show ?thesis by blast
          qed
        qed
      qed
    qed
  qed
next
  case BadTag
  with bad_tag show ?thesis by blast
next
  case (BadVal t)
  with bad_val show ?thesis by blast
qed

lemma loop_bad_val_calls:
  "filled < valsToFill \<Longrightarrow> tag64 < maxTag \<Longrightarrow>
   scanCalls (processTuple_loop conv valsToFill maxTag row filled tag64 p cs (BadVal t # es)) = cs
   \<and> scanRow (processTuple_loop conv valsToFill maxTag row filled tag64 p cs (BadVal t # es)) = row"
  by (cases "maxTag < t") (simp_all add: loop_bad_val loop_bad_val_over)

lemma length_scanRow:
  "length (scanRow (processTuple_loop conv valsToFill maxTag row filled tag64 p cs es))
     = length row"
proof (induction es arbitrary: row filled tag64 p cs)
  case Nil
  then show ?case by simp
next
  case (Cons e es)
  show ?case
  proof (cases "filled < valsToFill \<and> tag64 < maxTag")
    case False
    from loop_stop[OF this] show ?thesis by simp
  next
    case True
    then have g: "filled < valsToFill" "tag64 < maxTag" by simp_all
    show ?thesis
    proof (cases e rule: processTuple_loop_cases[where conv = conv and row = row and maxTag = maxTag])
      case bad_tag
      with g show ?thesis by (simp add: loop_bad_tag)
    next
      case (bad_val t)
      with g loop_bad_val_calls show ?thesis by simp
    next
      case (over t v)
      with g show ?thesis by (simp add: loop_over)
    next
      case (skip t v)
      with g Cons.IH show ?thesis by (simp add: loop_skip)
    next
      case (panic_cols t v i)
      with g show ?thesis by (simp add: loop_panic_cols)
    next
      case (panic_row t v i)
      with g show ?thesis by (simp add: loop_panic_row)
    next
      case (fail t v i x er)
      with g show ?thesis by (simp add: loop_fail)
    next
      case (fill t v i x)
      with g Cons.IH[of "row[nat i := x]"] show ?thesis by (simp add: loop_fill)
    qed
  qed
qed

lemma processTuple_loop_failed_call:
  assumes "\<forall>c \<in> set cs. snd (ConvertNomsValueToValue (cols conv ! fst c) (snd c)) = None"
      and "\<forall>t i. tagToSqlColIdx conv t = Some i \<longrightarrow> i < int (length row)"
      and "c \<in> set (scanCalls (processTuple_loop conv valsToFill maxTag row filled tag64 p cs es))"
      and "snd (ConvertNomsValueToValue (cols conv ! fst c) (snd c)) \<noteq> None"
  shows "scanErr (processTuple_loop conv valsToFill maxTag row filled tag64 p cs es)
           = snd (ConvertNomsValueToValue (cols conv ! fst c) (snd c))"
  using assms(1,2,3)
proof (induction es arbitrary: row filled tag64 p cs)
  case Nil
  with assms(4) show ?case by auto
next
  case (Cons e es)
  show ?case
  proof (cases "filled < valsToFill \<and> tag64 < maxTag")
    case False
    from loop_stop[OF this] Cons.prems assms(4) show ?thesis by auto
  next
    case True
    then have g: "filled < valsToFill" "tag64 < maxTag" by simp_all
    show ?thesis
    proof (cases e rule: processTuple_loop_cases[where conv = conv and row = row and maxTag = maxTag])
      case bad_tag
      with g Cons.prems assms(4) show ?thesis by (auto simp add: loop_bad_tag)
    next
      case (bad_val t)
      with g Cons.prems assms(4) loop_bad_val_calls[OF g, of conv row p cs t es]
      show ?thesis by auto
    next
      case (over t v)
      with g Cons.prems assms(4) show ?thesis by (auto simp add: loop_over)
    next
      case (skip t v)
      with g Cons.prems have
        "c \<in> set (scanCalls (processTuple_loop conv valsToFill maxTag row filled t (p + 2) cs es))"
        by (simp add: loop_skip)
      from Cons.IH[OF Cons.prems(1,2) this] skip g show ?thesis by (simp add: loop_skip)
    next
      case (panic_cols t v i)
      with g Cons.prems assms(4) show ?thesis by (auto simp add: loop_panic_cols)
    next
      case (panic_row t v i)
      with Cons.prems(2) show ?thesis by force
    next
      case (fail t v i x er)
      with g have run: "processTuple_loop conv valsToFill maxTag row filled tag64 p cs (e # es)
          = \<lparr>scanRow = row[nat i := x], scanPos = p + 2, scanCalls = cs @ [(nat i, v)],
             scanErr = Some er\<rparr>"
        by (simp add: loop_fail)
      with Cons.prems(3) have "c \<in> set cs \<or> c = (nat i, v)" by auto
      with Cons.prems(1) assms(4) have "c = (nat i, v)" by auto
      with run fail show ?thesis by simp
    next
      case (fill t v i x)
      with g have run: "processTuple_loop conv valsToFill maxTag row filled tag64 p cs (e # es)
          = processTuple_loop conv valsToFill maxTag (row[nat i := x]) (filled + 1) t (p + 2)
              (cs @ [(nat i, v)]) es"
        by (simp add: loop_fill)
      have a: "\<forall>c \<in> set (cs @ [(nat i, v)]).
                 snd (ConvertNomsValueToValue (cols conv ! fst c) (snd c)) = None"
        using Cons.prems(1) fill by simp
      have b: "\<forall>t i'. tagToSqlColIdx conv t = Some i' \<longrightarrow> i' < int (length (row[nat i := x]))"
        using Cons.prems(2) by simp
      from Cons.prems(3) run have
        "c \<in> set (scanCalls (processTuple_loop conv valsToFill maxTag (row[nat i := x])
                     (filled + 1) t (p + 2) (cs @ [(nat i, v)]) es))"
        by simp
      from Cons.IH[OF a b this] run show ?thesis by simp
    qed
  qed
qed

lemma keyScan_length:
  "0 \<le> rowSize conv \<Longrightarrow> int (length (scanRow (keyScan conv ks))) = rowSize conv"
  by (simp add: keyScan_def processTuple_def InitForTuple_def length_scanRow Let_def)

lemma keyScan_failed_call:
  assumes "\<forall>t i. tagToSqlColIdx conv t = Some i \<longrightarrow> i < rowSize conv"
      and "0 \<le> rowSize conv"
      and "c \<in> set (scanCalls (keyScan conv ks))"
      and "snd (ConvertNomsValueToValue (cols conv ! fst c) (snd c)) \<noteq> None"
  shows "scanErr (keyScan conv ks) = snd (ConvertNomsValueToValue (cols conv ! fst c) (snd c))"
proof (cases "0 < valsFromKey conv")
  case True
  let ?nils = "replicate (nat (rowSize conv)) SqlNil"
  have run: "keyScan conv ks
      = processTuple_loop conv (valsFromKey conv) 0xFFFFFFFFFFFFFFFF ?nils 0 0 0 [] ks"
    using True by (simp add: keyScan_def processTuple_def InitForTuple_def)
  have a: "\<forall>c \<in> set []. snd (ConvertNomsValueToValue (cols conv ! fst c) (snd c)) = None"
    by simp
  have b: "\<forall>t i. tagToSqlColIdx conv t = Some i \<longrightarrow> i < int (length ?nils)"
    using assms(1,2) by simp
  from assms(3) run have
    "c \<in> set (scanCalls (processTuple_loop conv (valsFromKey conv) 0xFFFFFFFFFFFFFFFF ?nils 0 0 0
                 [] ks))"
    by simp
  from processTuple_loop_failed_call[OF a b this assms(4)] run show ?thesis by simp
next
  case False
  with assms(3) show ?thesis by (simp add: keyScan_def)
qed

lemma valScan_failed_call:
  assumes "\<forall>t i. tagToSqlColIdx conv t = Some i \<longrightarrow> i < int (length row)"
      and "c \<in> set (scanCalls (valScan conv row vt))"
      and "snd (ConvertNomsValueToValue (cols conv ! fst c) (snd c)) \<noteq> None"
  shows "scanErr (valScan conv row vt) = snd (ConvertNomsValueToValue (cols conv ! fst c) (snd c))"
proof (cases "0 < valsFromVal conv")
  case True
  define es where "es = (case vt of None \<Rightarrow> [] | Some t \<Rightarrow> t)"
  have run: "valScan conv row vt
      = processTuple_loop conv (valsFromVal conv) (maxValTag conv) row 0 0 0 [] es"
    using True by (cases vt) (simp_all add: valScan_def processTuple_def InitForTuple_def es_def)
  have a: "\<forall>c \<in> set []. snd (ConvertNomsValueToValue (cols conv ! fst c) (snd c)) = None"
    by simp
  from assms(2) run have
    "c \<in> set (scanCalls (processTuple_loop conv (valsFromVal conv) (maxValTag conv) row 0 0 0
                 [] es))"
    by simp
  from processTuple_loop_failed_call[OF a assms(1) this assms(3)] run show ?thesis by simp
next
  case False
  with assms(2) show ?thesis by (simp add: valScan_def)
qed

lemma ConvertKVToSqlRow_tuples:
  assumes "IsNull v \<or> (\<exists>vs. v = VTuple vs)"
  shows "ConvertKVToSqlRow conv (VTuple ks) v =
     (if rowSize conv < 0
      then \<lparr>resRow = None, resErr = Some (Panic ''makeslice: len out of range''), resCalls = []\<rparr>
      else case scanErr (keyScan conv ks) of
        Some er \<Rightarrow> \<lparr>resRow = None, resErr = Some er, resCalls = scanCalls (keyScan conv ks)\<rparr>
      | None \<Rightarrow>
          (case scanErr (valScan conv (scanRow (keyScan conv ks)) (valTuple v)) of
             Some er \<Rightarrow>
               \<lparr>resRow = None, resErr = Some er,
                resCalls = scanCalls (keyScan conv ks)
                   @ scanCalls (valScan conv (scanRow (keyScan conv ks)) (valTuple v))\<rparr>
           | None \<Rightarrow>
               \<lparr>resRow = Some (scanRow (valScan conv (scanRow (keyScan conv ks)) (valTuple v))),
                resErr = None,
                resCalls = scanCalls (keyScan conv ks)
                   @ scanCalls (valScan conv (scanRow (keyScan conv ks)) (valTuple v))\<rparr>))"
  using assms
  by (auto simp add: ConvertKVToSqlRow_def IsNull_def valTuple_def Let_def split: option.splits)

text \<open>
  C5.  Let no requested tag be mapped beyond the row.  If the key is not a tuple, or the
  value is neither absent nor a tuple, or a converter that the call invoked returned an
  error, then the call returns no row, and it returns an error: the message for the key,
  the message for the value, or the error of the converter that failed.
\<close>

theorem ConvertKVToSqlRow_error_no_row:
  assumes cfg: "\<forall>t i. tagToSqlColIdx conv t = Some i \<longrightarrow> i < rowSize conv"
      and bad: "(\<forall>ks. k \<noteq> VTuple ks) \<or> (\<not> IsNull v \<and> (\<forall>vs. v \<noteq> VTuple vs)) \<or>
                (\<exists>c \<in> set (resCalls (ConvertKVToSqlRow conv k v)).
                   snd (ConvertNomsValueToValue (cols conv ! fst c) (snd c)) \<noteq> None)"
  shows "resRow (ConvertKVToSqlRow conv k v) = None \<and>
         resErr (ConvertKVToSqlRow conv k v) \<noteq> None \<and>
         (resErr (ConvertKVToSqlRow conv k v) = Some (Error ''invalid key is not a tuple'') \<or>
          resErr (ConvertKVToSqlRow conv k v) = Some (Error ''invalid value is not a tuple'') \<or>
          (\<exists>c \<in> set (resCalls (ConvertKVToSqlRow conv k v)).
             resErr (ConvertKVToSqlRow conv k v)
               = snd (ConvertNomsValueToValue (cols conv ! fst c) (snd c))))"
proof (cases "\<forall>ks. k \<noteq> VTuple ks")
  case True
  then have "ConvertKVToSqlRow conv k v
      = \<lparr>resRow = None, resErr = Some (Error ''invalid key is not a tuple''), resCalls = []\<rparr>"
    by (cases k) (simp_all add: ConvertKVToSqlRow_def)
  then show ?thesis by simp
next
  case False
  then obtain ks where k: "k = VTuple ks" by blast
  show ?thesis
  proof (cases "\<not> IsNull v \<and> (\<forall>vs. v \<noteq> VTuple vs)")
    case True
    then have "ConvertKVToSqlRow conv k v
      = \<lparr>resRow = None, resErr = Some (Error ''invalid value is not a tuple''), resCalls = []\<rparr>"
      by (cases v) (simp_all add: ConvertKVToSqlRow_def k)
    then show ?thesis by simp
  next
    case tuples: False
    then have vt: "IsNull v \<or> (\<exists>vs. v = VTuple vs)" by blast
    note run = ConvertKVToSqlRow_tuples[OF vt, of conv ks]
    let ?R = "ConvertKVToSqlRow conv (VTuple ks) v"
    let ?K = "keyScan conv ks"
    let ?V = "valScan conv (scanRow ?K) (valTuple v)"
    from bad tuples k obtain c where c: "c \<in> set (resCalls ?R)"
      and f: "snd (ConvertNomsValueToValue (cols conv ! fst c) (snd c)) \<noteq> None"
      by blast
    have n0: "0 \<le> rowSize conv"
    proof (rule ccontr)
      assume "\<not> ?thesis"
      with run c show False by simp
    qed
    then have nn: "\<not> rowSize conv < 0" by simp
    have inlog: "c \<in> set (resCalls ?R)" by (rule c)
    have "resRow ?R = None \<and> resErr ?R = snd (ConvertNomsValueToValue (cols conv ! fst c) (snd c))"
    proof (cases "scanErr ?K")
      case (Some er)
      with run nn have R: "?R = \<lparr>resRow = None, resErr = Some er, resCalls = scanCalls ?K\<rparr>"
        by simp
      with c have "c \<in> set (scanCalls ?K)" by simp
      from keyScan_failed_call[OF cfg n0 this f] R Some show ?thesis by simp
    next
      case None
      have notk: "c \<notin> set (scanCalls ?K)"
      proof
        assume "c \<in> set (scanCalls ?K)"
        from keyScan_failed_call[OF cfg n0 this f] None f show False by simp
      qed
      have calls: "resCalls ?R = scanCalls ?K @ scanCalls ?V"
        using run nn None by (simp split: option.splits)
      with c notk have cv: "c \<in> set (scanCalls ?V)" by simp
      have len: "\<forall>t i. tagToSqlColIdx conv t = Some i \<longrightarrow> i < int (length (scanRow ?K))"
        using cfg keyScan_length[OF n0, of ks] by simp
      from valScan_failed_call[OF len cv f]
      have ve: "scanErr ?V = snd (ConvertNomsValueToValue (cols conv ! fst c) (snd c))" .
      with f obtain er where er: "scanErr ?V = Some er" by auto
      with run nn None have "resRow ?R = None" "resErr ?R = Some er" by simp_all
      with er ve show ?thesis by simp
    qed
    with f inlog show ?thesis unfolding k by auto
  qed
qed

text \<open>The theorem at a run in which the converter of the age column rejects the value.\<close>

theorem ConvertKVToSqlRow_error_no_row_witness:
  "resRow (ConvertKVToSqlRow (NewKVToSqlRowConverterForCols ex_cols)
             (VTuple ex_key) (VTuple ex_bad_val)) = None \<and>
   resErr (ConvertKVToSqlRow (NewKVToSqlRowConverterForCols ex_cols)
             (VTuple ex_key) (VTuple ex_bad_val)) = Some (Error ''not a number'')"
proof -
  let ?conv = "NewKVToSqlRowConverterForCols ex_cols"
  let ?R = "ConvertKVToSqlRow ?conv (VTuple ex_key) (VTuple ex_bad_val)"
  have cfg: "\<forall>t i. tagToSqlColIdx ?conv t = Some i \<longrightarrow> i < rowSize ?conv"
    by (auto simp add: NewKVToSqlRowConverterForCols_def NewKVToSqlRowConverter_fields ex_defs
        split: if_splits)
  have calls: "resCalls ?R = [(0, VString ''k1''), (3, VString ''eu''), (1, VString ''Bob''),
                             (2, VString ''old'')]"
    by (simp add: run_defs ex_defs ex_bad_val_def NewKVToSqlRowConverterForCols_def replicate_small)
  have err: "resErr ?R = Some (Error ''not a number'')"
    by (simp add: run_defs ex_defs ex_bad_val_def NewKVToSqlRowConverterForCols_def replicate_small)
  have bad: "(\<forall>ks. VTuple ex_key \<noteq> VTuple ks) \<or>
             (\<not> IsNull (VTuple ex_bad_val) \<and> (\<forall>vs. VTuple ex_bad_val \<noteq> VTuple vs)) \<or>
             (\<exists>c \<in> set (resCalls ?R).
                snd (ConvertNomsValueToValue (cols ?conv ! fst c) (snd c)) \<noteq> None)"
    unfolding calls
    by (simp add: NewKVToSqlRowConverterForCols_def NewKVToSqlRowConverter_fields ex_defs)
  from ConvertKVToSqlRow_error_no_row[OF cfg bad] err show ?thesis by simp
qed

subsection \<open>The absent value\<close>

text \<open>A scan leaves every slot alone to which no entry of its tuple is mapped.\<close>

lemma processTuple_loop_untouched:
  assumes "\<forall>t x. Entry t x \<in> set es \<longrightarrow> tagToSqlColIdx conv t \<noteq> Some (int j)"
  shows "scanRow (processTuple_loop conv valsToFill maxTag row filled tag64 p cs es) ! j = row ! j"
  using assms
proof (induction es arbitrary: row filled tag64 p cs)
  case Nil
  then show ?case by simp
next
  case (Cons e es)
  have rest: "\<forall>t x. Entry t x \<in> set es \<longrightarrow> tagToSqlColIdx conv t \<noteq> Some (int j)"
    using Cons.prems by simp
  show ?case
  proof (cases "filled < valsToFill \<and> tag64 < maxTag")
    case False
    from loop_stop[OF this] show ?thesis by simp
  next
    case True
    then have g: "filled < valsToFill" "tag64 < maxTag" by simp_all
    show ?thesis
    proof (cases e rule: processTuple_loop_cases[where conv = conv and row = row and maxTag = maxTag])
      case bad_tag
      with g show ?thesis by (simp add: loop_bad_tag)
    next
      case (bad_val t)
      with g loop_bad_val_calls show ?thesis by simp
    next
      case (over t v)
      with g show ?thesis by (simp add: loop_over)
    next
      case (skip t v)
      with g Cons.IH[OF rest] show ?thesis by (simp add: loop_skip)
    next
      case (panic_cols t v i)
      with g show ?thesis by (simp add: loop_panic_cols)
    next
      case (panic_row t v i)
      with g show ?thesis by (simp add: loop_panic_row)
    next
      case (fail t v i x er)
      from Cons.prems fail have "i \<noteq> int j" by auto
      with fail have "nat i \<noteq> j" by auto
      with g fail show ?thesis by (simp add: loop_fail)
    next
      case (fill t v i x)
      from Cons.prems fill have "i \<noteq> int j" by auto
      with fill have "nat i \<noteq> j" by auto
      with g fill Cons.IH[OF rest, of "row[nat i := x]"] show ?thesis by (simp add: loop_fill)
    qed
  qed
qed

lemma keyScan_untouched:
  assumes "\<forall>t x. Entry t x \<in> set ks \<longrightarrow> tagToSqlColIdx conv t \<noteq> Some (int j)"
      and "j < nat (rowSize conv)"
  shows "scanRow (keyScan conv ks) ! j = SqlNil"
  using assms processTuple_loop_untouched[OF assms(1)]
  by (simp add: keyScan_def processTuple_def InitForTuple_def Let_def)

text \<open>
  C6 fails as stated: a well-formed key tuple may hold a value that the converter of its
  column rejects, and then the call returns that error, with the absent value as with
  any other.  Here the id of the key is a number and all columns are requested.
\<close>

theorem ConvertKVToSqlRow_absent_value_key_error:
  "wf_tuple ex_num_key \<and>
   resRow (ConvertKVToSqlRow (NewKVToSqlRowConverterForCols ex_cols) (VTuple ex_num_key) VNull)
     = None \<and>
   resErr (ConvertKVToSqlRow (NewKVToSqlRowConverterForCols ex_cols) (VTuple ex_num_key) VNull)
     = Some (Error ''not a string'')"
  by (simp add: run_defs ex_defs ex_num_key_def NewKVToSqlRowConverterForCols_def replicate_small
      wf_tuple_def)

text \<open>
  C6, as the code has it.  For a key that is a tuple and the absent value, the value is
  no error and contributes nothing, also when value columns are requested: the call
  returns the error of the key scan, which is none when the key scan succeeds, and it
  makes no converter invocation beyond those of the key scan.  When the key scan
  succeeds the call returns the row that the key scan left, of \<open>rowSize\<close> slots, in which
  every slot to which no entry of the key tuple is mapped holds nil; the slots of the
  requested value columns are such slots unless an entry of the key tuple is mapped to
  them.
\<close>

theorem ConvertKVToSqlRow_absent_value:
  assumes "0 \<le> rowSize conv"
  shows "resErr (ConvertKVToSqlRow conv (VTuple ks) VNull) = scanErr (keyScan conv ks) \<and>
         resCalls (ConvertKVToSqlRow conv (VTuple ks) VNull) = scanCalls (keyScan conv ks) \<and>
         (scanErr (keyScan conv ks) = None \<longrightarrow>
            resRow (ConvertKVToSqlRow conv (VTuple ks) VNull) = Some (scanRow (keyScan conv ks)) \<and>
            int (length (scanRow (keyScan conv ks))) = rowSize conv \<and>
            (\<forall>j < nat (rowSize conv).
               (\<forall>t x. Entry t x \<in> set ks \<longrightarrow> tagToSqlColIdx conv t \<noteq> Some (int j)) \<longrightarrow>
               scanRow (keyScan conv ks) ! j = SqlNil))"
proof -
  have null: "IsNull VNull \<or> (\<exists>vs. VNull = VTuple vs)" by (simp add: IsNull_def)
  have vt: "valTuple VNull = None" by (simp add: valTuple_def)
  have nn: "\<not> rowSize conv < 0" using assms by simp
  note run = ConvertKVToSqlRow_tuples[OF null, of conv ks, unfolded vt valScan_absent]
  have a: "resErr (ConvertKVToSqlRow conv (VTuple ks) VNull) = scanErr (keyScan conv ks)"
    using run nn by (simp split: option.splits)
  have b: "resCalls (ConvertKVToSqlRow conv (VTuple ks) VNull) = scanCalls (keyScan conv ks)"
    using run nn by (simp split: option.splits)
  have c: "scanErr (keyScan conv ks) = None \<longrightarrow>
            resRow (ConvertKVToSqlRow conv (VTuple ks) VNull) = Some (scanRow (keyScan conv ks))"
    using run nn by simp
  have d: "int (length (scanRow (keyScan conv ks))) = rowSize conv"
    using assms by (rule keyScan_length)
  have e: "\<forall>j < nat (rowSize conv).
               (\<forall>t x. Entry t x \<in> set ks \<longrightarrow> tagToSqlColIdx conv t \<noteq> Some (int j)) \<longrightarrow>
               scanRow (keyScan conv ks) ! j = SqlNil"
    using keyScan_untouched by blast
  from a b c d e show ?thesis by blast
qed

text \<open>
  The theorem at a run: the columns id and age are requested, the value is absent; the
  slot of the value column age holds nil.
\<close>

theorem ConvertKVToSqlRow_absent_value_witness:
  "resErr (ConvertKVToSqlRow (NewKVToSqlRowConverter [1 \<mapsto> 0, 5 \<mapsto> 2] ex_cols 4)
             (VTuple ex_key) VNull) = None \<and>
   resRow (ConvertKVToSqlRow (NewKVToSqlRowConverter [1 \<mapsto> 0, 5 \<mapsto> 2] ex_cols 4)
             (VTuple ex_key) VNull) = Some [SqlText ''k1'', SqlNil, SqlNil, SqlNil] \<and>
   scanRow (keyScan (NewKVToSqlRowConverter [1 \<mapsto> 0, 5 \<mapsto> 2] ex_cols 4) ex_key) ! 2 = SqlNil"
proof -
  let ?conv = "NewKVToSqlRowConverter [1 \<mapsto> 0, 5 \<mapsto> 2] ex_cols 4"
  have n: "0 \<le> rowSize ?conv" by (simp add: NewKVToSqlRowConverter_fields)
  have ok: "scanErr (keyScan ?conv ex_key) = None"
    by (simp add: run_defs ex_defs replicate_small)
  have row: "scanRow (keyScan ?conv ex_key) = [SqlText ''k1'', SqlNil, SqlNil, SqlNil]"
    by (simp add: run_defs ex_defs replicate_small)
  have free: "\<forall>t x. Entry t x \<in> set ex_key \<longrightarrow> tagToSqlColIdx ?conv t \<noteq> Some (int 2)"
    by (auto simp add: NewKVToSqlRowConverter_fields ex_defs)
  have two: "2 < nat (rowSize ?conv)" by (simp add: NewKVToSqlRowConverter_fields)
  from ConvertKVToSqlRow_absent_value[OF n, of ex_key] ok row free two show ?thesis
    by auto
qed

section \<open>Properties of the width-sizing transform\<close>

subsection \<open>Sampling and the string assertion\<close>

lemma sampleRow_panics:
  "col \<in> set cs \<Longrightarrow> \<not> IsNull (GetColVal r (Tag col)) \<Longrightarrow> non_string (GetColVal r (Tag col))
    \<Longrightarrow> \<exists>msg. sampleRow ev r cs acc = Inl (Panic msg)"
proof (induction cs arbitrary: acc)
  case Nil
  then show ?case by simp
next
  case (Cons c cs)
  obtain pw mr where acc: "acc = (pw, mr)" by (cases acc)
  show ?case
  proof (cases "c = col")
    case True
    with Cons.prems show ?thesis
      by (simp add: acc non_string_def Let_def split: val.splits)
  next
    case False
    with Cons.prems have "col \<in> set cs" by simp
    from Cons.IH[OF this Cons.prems(2,3)] show ?thesis
      by (simp add: acc Let_def split: val.splits)
  qed
qed

lemma sampleRow_ok:
  "\<forall>col \<in> set cs. IsNull (GetColVal r (Tag col)) \<or> \<not> non_string (GetColVal r (Tag col))
    \<Longrightarrow> \<exists>res. sampleRow ev r cs acc = Inr res"
proof (induction cs arbitrary: acc)
  case Nil
  then show ?case by simp
next
  case (Cons c cs)
  obtain pw mr where acc: "acc = (pw, mr)" by (cases acc)
  from Cons.prems have rest:
    "\<forall>col \<in> set cs. IsNull (GetColVal r (Tag col)) \<or> \<not> non_string (GetColVal r (Tag col))"
    by simp
  from Cons.prems have hd: "IsNull (GetColVal r (Tag c)) \<or> \<not> non_string (GetColVal r (Tag c))"
    by simp
  show ?case using hd Cons.IH[OF rest]
    by (auto simp add: acc Let_def non_string_def IsNull_def split: val.splits)
qed

text \<open>
  C10.  While the stage samples (the buffer exists and the sample size is not positive
  or not reached), \<^verbatim>\<open>handleRow\<close> panics on a row exactly when some column of the schema
  has a value in the row that is neither null nor a string; it then returns no error and
  sends nothing.
\<close>

theorem handleRow_sampling_panics:
  assumes "rowBuffer (asTr st) = Some buf"
      and "numSamples (asTr st) \<le> 0 \<or> int (length buf) < numSamples (asTr st)"
  shows "(\<exists>msg. handleRow ev stopChan st r = Inl (Panic msg)) \<longleftrightarrow>
         (\<exists>col \<in> set (sch (asTr st)).
            \<not> IsNull (GetColVal (Row r) (Tag col)) \<and> non_string (GetColVal (Row r) (Tag col)))"
proof
  assume panics: "\<exists>msg. handleRow ev stopChan st r = Inl (Panic msg)"
  show "\<exists>col \<in> set (sch (asTr st)).
            \<not> IsNull (GetColVal (Row r) (Tag col)) \<and> non_string (GetColVal (Row r) (Tag col))"
  proof (rule ccontr)
    assume "\<not> ?thesis"
    then have "\<forall>col \<in> set (sch (asTr st)).
        IsNull (GetColVal (Row r) (Tag col)) \<or> \<not> non_string (GetColVal (Row r) (Tag col))"
      by blast
    from sampleRow_ok[OF this] obtain res where
      "sampleRow ev (Row r) (sch (asTr st)) (printWidths (asTr st), maxRunes (asTr st)) = Inr res"
      by blast
    with assms have "\<exists>st'. handleRow ev stopChan st r = Inr st'"
      by (cases res) (auto simp add: handleRow_def Let_def)
    with panics show False by auto
  qed
next
  assume "\<exists>col \<in> set (sch (asTr st)).
            \<not> IsNull (GetColVal (Row r) (Tag col)) \<and> non_string (GetColVal (Row r) (Tag col))"
  then obtain col where c: "col \<in> set (sch (asTr st))" "\<not> IsNull (GetColVal (Row r) (Tag col))"
      "non_string (GetColVal (Row r) (Tag col))" by blast
  from sampleRow_panics[OF c] obtain msg where
    "sampleRow ev (Row r) (sch (asTr st)) (printWidths (asTr st), maxRunes (asTr st))
       = Inl (Panic msg)"
    by blast
  with assms show "\<exists>msg. handleRow ev stopChan st r = Inl (Panic msg)"
    by (auto simp add: handleRow_def Let_def)
qed

theorem handleRow_sampling_panics_witness:
  "\<exists>msg. handleRow ex_env (\<lambda>_. False) (newStage ex_sch 0 0) \<lparr>Row = [(1, VUint 7)], Props = []\<rparr>
           = Inl (Panic msg)"
proof -
  have a: "rowBuffer (asTr (newStage ex_sch 0 0)) = Some []"
    by (simp add: newStage_def NewAutoSizingFWTTransformer_def)
  have b: "numSamples (asTr (newStage ex_sch 0 0)) \<le> 0
        \<or> int (length ([]::RowWithProps list)) < numSamples (asTr (newStage ex_sch 0 0))"
    by (simp add: newStage_def NewAutoSizingFWTTransformer_def)
  have c: "\<exists>col \<in> set (sch (asTr (newStage ex_sch 0 0))).
            \<not> IsNull (GetColVal (Row \<lparr>Row = [(1, VUint 7)], Props = []\<rparr>) (Tag col))
            \<and> non_string (GetColVal (Row \<lparr>Row = [(1, VUint 7)], Props = []\<rparr>) (Tag col))"
    by (simp add: newStage_def NewAutoSizingFWTTransformer_def ex_sch_def GetColVal_def
        IsNull_def non_string_def)
  show ?thesis
    using handleRow_sampling_panics[OF a b, of ex_env "\<lambda>_. False"
        "\<lparr>Row = [(1, VUint 7)], Props = []\<rparr>"] c
    by blast
qed

subsection \<open>Rows that leave no trace\<close>

text \<open>
  C9.  When the formatter reports no error but returns a result list whose length is not
  one, \<^verbatim>\<open>processRow\<close> leaves the stage as it was: nothing is sent on the output queue
  and nothing on the error queue.
\<close>

theorem processRow_drops_row:
  assumes "fwtTr (asTr st) = Some tr"
      and "Transform ev tr (Row r) (Props r) = (rds, [])"
      and "length rds \<noteq> 1"
  shows "processRow ev st r = Inr st"
  using assms by (simp add: processRow_def)

theorem processRow_drops_row_witness:
  "processRow ex_drop_env ex_materialized (ex_row ''ab'') = Inr ex_materialized
   \<and> outChan ex_materialized = [] \<and> badRowChan ex_materialized = []"
proof -
  have a: "fwtTr (asTr ex_materialized) = Some ex_tr" by (simp add: ex_materialized_def)
  have b: "Transform ex_drop_env ex_tr (Row (ex_row ''ab'')) (Props (ex_row ''ab'')) = ([], [])"
    by (simp add: ex_drop_env_def)
  have c: "length ([]::TransformedRowResult list) \<noteq> 1" by simp
  show ?thesis using processRow_drops_row[OF a b c] by (simp add: ex_materialized_def)
qed

text \<open>
  C4.  With a sample size of one and the rows a, bcd, ef, the row bcd finds the sample
  threshold reached: it makes \<^verbatim>\<open>handleRow\<close> flush the buffer, and is itself neither
  formatted nor sent on either queue.  The run sends a and ef only.
\<close>

theorem threshold_row_is_dropped:
  "map_sum id (\<lambda>(st, rest). (outChan st, badRowChan st, rest, rowBuffer (asTr st)))
     (TransformToFWT ex_env (\<lambda>_. False) (\<lambda>_. False)
        [ex_row ''a'', ex_row ''bcd'', ex_row ''ef''] (newStage ex_sch 0 1))
   = Inr ([ex_row ''a'', ex_row ''ef''], [], [], None)"
  by (simp add: TransformToFWT_def newStage_def NewAutoSizingFWTTransformer_def handleRow_def
      flush_def processRow_def ex_env_def ex_row_def ex_sch_def Let_def GetColVal_def IsNull_def
      width_of_def NewFWTTransformer_def NewFWTSchemaWithWidths_def)

subsection \<open>Learned widths\<close>

lemma Max_insert_max:
  "finite S \<Longrightarrow> Max (insert (max x b) S) = max (x::int) (Max (insert b S))"
proof (cases "S = {}")
  case True
  then show ?thesis by simp
next
  case False
  assume "finite S"
  with False show ?thesis by (simp add: max.assoc)
qed

lemma Max_insert_Cons:
  "Max (insert a (set (x # xs))) = max (x::int) (Max (insert a (set xs)))"
proof -
  have "insert a (set (x # xs)) = insert x (insert a (set xs))" by auto
  then show ?thesis by simp
qed

lemma Max_insert_append:
  "Max (insert a (set (xs @ ys))) = Max (insert (Max (insert (a::int) (set xs))) (set ys))"
proof (induction xs)
  case Nil
  then show ?case by simp
next
  case (Cons x xs)
  have "Max (insert a (set ((x # xs) @ ys))) = max x (Max (insert a (set (xs @ ys))))"
    using Max_insert_Cons[of a x "xs @ ys"] by simp
  also have "\<dots> = max x (Max (insert (Max (insert a (set xs))) (set ys)))"
    by (simp only: Cons.IH)
  also have "\<dots> = Max (insert (max x (Max (insert a (set xs)))) (set ys))"
    by (simp add: Max_insert_max)
  also have "\<dots> = Max (insert (Max (insert a (set (x # xs)))) (set ys))"
    by (simp only: Max_insert_Cons)
  finally show ?case .
qed

lemma width_of_upd: "width_of (m(t \<mapsto> w)) t' = (if t' = t then w else width_of m t')"
  by (simp add: width_of_def)

lemma width_of_empty: "width_of Map.empty t = 0"
  by (simp add: width_of_def)

lemma observedIn_Cons_other:
  "t \<noteq> Tag col \<Longrightarrow> observedIn f (col # cs) r t = observedIn f cs r t"
  by (simp add: observedIn_def)

lemma observedIn_null_new:
  "GetColVal r (Tag col) = VNull \<Longrightarrow> observedIn f (col # cs) r (Tag col) = []"
  unfolding observedIn_def by simp

lemma observedIn_null_old:
  "GetColVal r (Tag col) = VNull \<Longrightarrow> observedIn f cs r (Tag col) = []"
  unfolding observedIn_def by simp

lemma observedIn_Cons_null:
  assumes "IsNull (GetColVal r (Tag col))"
  shows "set (observedIn f (col # cs) r t) = set (observedIn f cs r t)"
proof (cases "t = Tag col")
  case True
  from assms have n: "GetColVal r (Tag col) = VNull" by (simp add: IsNull_def)
  show ?thesis unfolding True observedIn_null_new[OF n] observedIn_null_old[OF n] ..
next
  case False
  from observedIn_Cons_other[OF False, of f cs r] show ?thesis by simp
qed

lemma observedIn_Cons_string:
  "GetColVal r (Tag col) = VString str \<Longrightarrow>
   Max (insert a (set (observedIn f (col # cs) r (Tag col))))
     = Max (insert (max a (int (f str))) (set (observedIn f cs r (Tag col))))"
  by (cases "Tag col \<in> Tag ` set cs") (simp_all add: observedIn_def max.commute max.assoc)

lemma sampleRow_widths:
  assumes "list_all (\<lambda>col. IsNull (GetColVal r (Tag col)) \<or> \<not> non_string (GetColVal r (Tag col))) cs"
  shows "\<exists>pw' mr'. sampleRow ev r cs (pw, mr) = Inr (pw', mr') \<and>
           (\<forall>t. width_of pw' t
                  = Max (insert (width_of pw t) (set (observedIn (StringWidth ev) cs r t)))) \<and>
           (\<forall>t. width_of mr' t
                  = Max (insert (width_of mr t) (set (observedIn (RuneCount ev) cs r t))))"
  using assms
proof (induction cs arbitrary: pw mr)
  case Nil
  then show ?case by (simp add: observedIn_def)
next
  case (Cons col cs)
  from Cons.prems have rest:
    "list_all (\<lambda>col. IsNull (GetColVal r (Tag col)) \<or> \<not> non_string (GetColVal r (Tag col))) cs"
    and hd: "IsNull (GetColVal r (Tag col)) \<or> \<not> non_string (GetColVal r (Tag col))"
    by simp_all
  show ?case
  proof (cases "IsNull (GetColVal r (Tag col))")
    case True
    from Cons.IH[OF rest, of pw mr] obtain pw' mr' where
      run: "sampleRow ev r cs (pw, mr) = Inr (pw', mr')"
      and w: "\<forall>t. width_of pw' t
                  = Max (insert (width_of pw t) (set (observedIn (StringWidth ev) cs r t)))"
      and m: "\<forall>t. width_of mr' t
                  = Max (insert (width_of mr t) (set (observedIn (RuneCount ev) cs r t)))"
      by blast
    from True run have "sampleRow ev r (col # cs) (pw, mr) = Inr (pw', mr')"
      by (simp add: Let_def)
    with w m True show ?thesis by (simp add: observedIn_Cons_null)
  next
    case False
    with hd obtain str where str: "GetColVal r (Tag col) = VString str"
      by (cases "GetColVal r (Tag col)") (simp_all add: non_string_def IsNull_def)
    let ?w = "int (StringWidth ev str)"
    let ?n = "int (RuneCount ev str)"
    let ?pw1 = "if ?w > width_of pw (Tag col) then pw(Tag col \<mapsto> ?w) else pw"
    let ?mr1 = "if ?n > width_of mr (Tag col) then mr(Tag col \<mapsto> ?n) else mr"
    have pw1: "\<forall>t. width_of ?pw1 t = (if t = Tag col then max (width_of pw t) ?w else width_of pw t)"
      by (auto simp add: width_of_upd)
    have mr1: "\<forall>t. width_of ?mr1 t = (if t = Tag col then max (width_of mr t) ?n else width_of mr t)"
      by (auto simp add: width_of_upd)
    from Cons.IH[OF rest, of ?pw1 ?mr1] obtain pw' mr' where
      run: "sampleRow ev r cs (?pw1, ?mr1) = Inr (pw', mr')"
      and w: "\<forall>t. width_of pw' t
                  = Max (insert (width_of ?pw1 t) (set (observedIn (StringWidth ev) cs r t)))"
      and m: "\<forall>t. width_of mr' t
                  = Max (insert (width_of ?mr1 t) (set (observedIn (RuneCount ev) cs r t)))"
      by blast
    from False str run have step: "sampleRow ev r (col # cs) (pw, mr) = Inr (pw', mr')"
      by (simp add: Let_def)
    have w': "\<forall>t. width_of pw' t
                  = Max (insert (width_of pw t) (set (observedIn (StringWidth ev) (col # cs) r t)))"
    proof
      fix t
      show "width_of pw' t
                  = Max (insert (width_of pw t) (set (observedIn (StringWidth ev) (col # cs) r t)))"
      proof (cases "t = Tag col")
        case True
        with w pw1 observedIn_Cons_string[OF str, of "width_of pw (Tag col)" "StringWidth ev" cs]
        show ?thesis by simp
      next
        case False
        with w pw1 show ?thesis by (simp add: observedIn_Cons_other)
      qed
    qed
    have m': "\<forall>t. width_of mr' t
                  = Max (insert (width_of mr t) (set (observedIn (RuneCount ev) (col # cs) r t)))"
    proof
      fix t
      show "width_of mr' t
                  = Max (insert (width_of mr t) (set (observedIn (RuneCount ev) (col # cs) r t)))"
      proof (cases "t = Tag col")
        case True
        with m mr1 observedIn_Cons_string[OF str, of "width_of mr (Tag col)" "RuneCount ev" cs]
        show ?thesis by simp
      next
        case False
        with m mr1 show ?thesis by (simp add: observedIn_Cons_other)
      qed
    qed
    from step w' m' show ?thesis by blast
  qed
qed

subsection \<open>Passing rows through the formatter\<close>

lemma sentOut_Cons: "sentOut ev tr (r # rs) = sentOut ev tr [r] @ sentOut ev tr rs"
  by (simp add: sentOut_def)

lemma sentBad_Cons: "sentBad ev tr (r # rs) = sentBad ev tr [r] @ sentBad ev tr rs"
  by (simp add: sentBad_def)

lemma sentOut_Nil: "sentOut ev tr [] = []"
  by (simp add: sentOut_def)

lemma sentBad_Nil: "sentBad ev tr [] = []"
  by (simp add: sentBad_def)

lemma sentOut_append: "sentOut ev tr (rs @ rs') = sentOut ev tr rs @ sentOut ev tr rs'"
  by (simp add: sentOut_def)

lemma sentBad_append: "sentBad ev tr (rs @ rs') = sentBad ev tr rs @ sentBad ev tr rs'"
  by (simp add: sentBad_def)



lemma processRow_sent:
  assumes "fwtTr (asTr st) = Some tr"
  shows "processRow ev st r
           = Inr (st\<lparr>outChan := outChan st @ sentOut ev tr [r],
                     badRowChan := badRowChan st @ sentBad ev tr [r]\<rparr>)"
proof -
  obtain rds errMsg where t: "Transform ev tr (Row r) (Props r) = (rds, errMsg)"
    by (cases "Transform ev tr (Row r) (Props r)")
  show ?thesis
  proof (cases "errMsg = []")
    case False
    with assms t show ?thesis by (simp add: processRow_def sentOut_def sentBad_def)
  next
    case True
    with assms t show ?thesis
      by (cases "length rds = 1") (simp_all add: processRow_def sentOut_def sentBad_def Let_def)
  qed
qed

text \<open>The replay loop when the stop channel is never found raised.\<close>

lemma flush_loop_no_stop:
  assumes "fwtTr (asTr st) = Some tr"
  shows "\<exists>n. flush_loop ev (\<lambda>_. False) i rs st
           = Inr (False, st\<lparr>outChan := outChan st @ sentOut ev tr rs,
                             badRowChan := badRowChan st @ sentBad ev tr rs,
                             polls := polls st + n\<rparr>)"
  using assms
proof (induction rs arbitrary: i st)
  case Nil
  show ?case by (intro exI[of _ 0]) (simp add: sentOut_Nil sentBad_Nil)
next
  case (Cons r rs)
  let ?st1 = "st\<lparr>outChan := outChan st @ sentOut ev tr [r],
                   badRowChan := badRowChan st @ sentBad ev tr [r]\<rparr>"
  have p: "processRow ev st r = Inr ?st1" using Cons.prems by (rule processRow_sent)
  show ?case
  proof (cases "i mod 100 = 0")
    case True
    let ?st2 = "?st1\<lparr>polls := polls ?st1 + 1\<rparr>"
    have f: "fwtTr (asTr ?st2) = Some tr" using Cons.prems by simp
    from Cons.IH[OF f, of "i + 1"] obtain n where
      "flush_loop ev (\<lambda>_. False) (i + 1) rs ?st2
         = Inr (False, ?st2\<lparr>outChan := outChan ?st2 @ sentOut ev tr rs,
                             badRowChan := badRowChan ?st2 @ sentBad ev tr rs,
                             polls := polls ?st2 + n\<rparr>)"
      by blast
    with p True show ?thesis
      by (intro exI[of _ "n + 1"])
         (simp add: sentOut_Cons[of ev tr r rs] sentBad_Cons[of ev tr r rs])
  next
    case False
    have f: "fwtTr (asTr ?st1) = Some tr" using Cons.prems by simp
    from Cons.IH[OF f, of "i + 1"] obtain n where
      "flush_loop ev (\<lambda>_. False) (i + 1) rs ?st1
         = Inr (False, ?st1\<lparr>outChan := outChan ?st1 @ sentOut ev tr rs,
                             badRowChan := badRowChan ?st1 @ sentBad ev tr rs,
                             polls := polls ?st1 + n\<rparr>)"
      by blast
    with p False show ?thesis
      by (intro exI[of _ n])
         (simp add: sentOut_Cons[of ev tr r rs] sentBad_Cons[of ev tr r rs])
  qed
qed

subsection \<open>Sampling until the input is closed\<close>

lemma handleRow_sampling:
  assumes buf: "rowBuffer (asTr st) = Some buf"
      and g: "numSamples (asTr st) \<le> 0 \<or> int (length buf) < numSamples (asTr st)"
      and s: "all_strings (sch (asTr st)) r"
  shows "\<exists>pw' mr'.
           handleRow ev stopChan st r
             = Inr (st\<lparr>asTr := (asTr st)\<lparr>printWidths := pw', maxRunes := mr',
                                            rowBuffer := Some (buf @ [r])\<rparr>\<rparr>) \<and>
           (\<forall>t. width_of pw' t
                  = Max (insert (width_of (printWidths (asTr st)) t)
                          (set (observedIn (StringWidth ev) (sch (asTr st)) (Row r) t)))) \<and>
           (\<forall>t. width_of mr' t
                  = Max (insert (width_of (maxRunes (asTr st)) t)
                          (set (observedIn (RuneCount ev) (sch (asTr st)) (Row r) t))))"
proof -
  from s have "list_all (\<lambda>col. IsNull (GetColVal (Row r) (Tag col))
                          \<or> \<not> non_string (GetColVal (Row r) (Tag col))) (sch (asTr st))"
    by (simp add: all_strings_def)
  from sampleRow_widths[OF this, of ev "printWidths (asTr st)" "maxRunes (asTr st)"]
  obtain pw' mr' where
    run: "sampleRow ev (Row r) (sch (asTr st)) (printWidths (asTr st), maxRunes (asTr st))
            = Inr (pw', mr')"
    and w: "\<forall>t. width_of pw' t
                  = Max (insert (width_of (printWidths (asTr st)) t)
                          (set (observedIn (StringWidth ev) (sch (asTr st)) (Row r) t)))"
    and m: "\<forall>t. width_of mr' t
                  = Max (insert (width_of (maxRunes (asTr st)) t)
                          (set (observedIn (RuneCount ev) (sch (asTr st)) (Row r) t)))"
    by blast
  from buf g run have "handleRow ev stopChan st r
             = Inr (st\<lparr>asTr := (asTr st)\<lparr>printWidths := pw', maxRunes := mr',
                                            rowBuffer := Some (buf @ [r])\<rparr>\<rparr>)"
    by (auto simp add: handleRow_def Let_def)
  with w m show ?thesis by blast
qed

lemma observed_Cons:
  "observed f s (r # rs) t = observedIn f s (Row r) t @ observed f s rs t"
  by (simp add: observed_def)

lemma RowLoop_sampling:
  assumes "rowBuffer (asTr st) = Some buf"
      and "numSamples (asTr st) \<le> 0 \<or> int (length buf + length rows) \<le> numSamples (asTr st)"
      and "list_all (all_strings (sch (asTr st))) rows"
  shows "\<exists>st'. RowLoop ev (\<lambda>_. False) pick rows st = Inr (InputClosed, st', []) \<and>
           rowBuffer (asTr st') = Some (buf @ rows) \<and>
           numSamples (asTr st') = numSamples (asTr st) \<and>
           sch (asTr st') = sch (asTr st) \<and>
           tooLngBhv (asTr st') = tooLngBhv (asTr st) \<and>
           fwtTr (asTr st') = fwtTr (asTr st) \<and>
           outChan st' = outChan st \<and> badRowChan st' = badRowChan st \<and>
           (rows = [] \<longrightarrow> printWidths (asTr st') = printWidths (asTr st)
                         \<and> maxRunes (asTr st') = maxRunes (asTr st)) \<and>
           (\<forall>t. width_of (printWidths (asTr st')) t
                  = Max (insert (width_of (printWidths (asTr st)) t)
                          (set (observed (StringWidth ev) (sch (asTr st)) rows t)))) \<and>
           (\<forall>t. width_of (maxRunes (asTr st')) t
                  = Max (insert (width_of (maxRunes (asTr st)) t)
                          (set (observed (RuneCount ev) (sch (asTr st)) rows t))))"
  using assms
proof (induction rows arbitrary: st buf)
  case Nil
  then show ?case by (simp add: observed_def)
next
  case (Cons r rows)
  let ?st0 = "st\<lparr>polls := polls st + 2\<rparr>"
  have b0: "rowBuffer (asTr ?st0) = Some buf" using Cons.prems(1) by simp
  have g0: "numSamples (asTr ?st0) \<le> 0 \<or> int (length buf) < numSamples (asTr ?st0)"
    using Cons.prems(2) by auto
  have s0: "all_strings (sch (asTr ?st0)) r" using Cons.prems(3) by simp
  from handleRow_sampling[OF b0 g0 s0, of ev "\<lambda>_. False"] obtain pw1 mr1 where
    h: "handleRow ev (\<lambda>_. False) ?st0 r
          = Inr (?st0\<lparr>asTr := (asTr ?st0)\<lparr>printWidths := pw1, maxRunes := mr1,
                                              rowBuffer := Some (buf @ [r])\<rparr>\<rparr>)"
    and w1: "\<forall>t. width_of pw1 t
                  = Max (insert (width_of (printWidths (asTr st)) t)
                          (set (observedIn (StringWidth ev) (sch (asTr st)) (Row r) t)))"
    and m1: "\<forall>t. width_of mr1 t
                  = Max (insert (width_of (maxRunes (asTr st)) t)
                          (set (observedIn (RuneCount ev) (sch (asTr st)) (Row r) t)))"
    by auto
  let ?st1 = "?st0\<lparr>asTr := (asTr ?st0)\<lparr>printWidths := pw1, maxRunes := mr1,
                                          rowBuffer := Some (buf @ [r])\<rparr>\<rparr>"
  have b1: "rowBuffer (asTr ?st1) = Some (buf @ [r])" by simp
  have g1: "numSamples (asTr ?st1) \<le> 0
            \<or> int (length (buf @ [r]) + length rows) \<le> numSamples (asTr ?st1)"
    using Cons.prems(2) by auto
  have s1: "list_all (all_strings (sch (asTr ?st1))) rows" using Cons.prems(3) by simp
  from Cons.IH[OF b1 g1 s1] obtain st' where
    run: "RowLoop ev (\<lambda>_. False) pick rows ?st1 = Inr (InputClosed, st', [])"
    and f: "rowBuffer (asTr st') = Some ((buf @ [r]) @ rows)"
      "numSamples (asTr st') = numSamples (asTr ?st1)"
      "sch (asTr st') = sch (asTr ?st1)"
      "tooLngBhv (asTr st') = tooLngBhv (asTr ?st1)"
      "fwtTr (asTr st') = fwtTr (asTr ?st1)"
      "outChan st' = outChan ?st1" "badRowChan st' = badRowChan ?st1"
    and w: "\<forall>t. width_of (printWidths (asTr st')) t
                  = Max (insert (width_of (printWidths (asTr ?st1)) t)
                          (set (observed (StringWidth ev) (sch (asTr ?st1)) rows t)))"
    and m: "\<forall>t. width_of (maxRunes (asTr st')) t
                  = Max (insert (width_of (maxRunes (asTr ?st1)) t)
                          (set (observed (RuneCount ev) (sch (asTr ?st1)) rows t)))"
    by blast
  have step: "RowLoop ev (\<lambda>_. False) pick (r # rows) st = Inr (InputClosed, st', [])"
    using h run by simp
  have w': "\<forall>t. width_of (printWidths (asTr st')) t
                  = Max (insert (width_of (printWidths (asTr st)) t)
                          (set (observed (StringWidth ev) (sch (asTr st)) (r # rows) t)))"
  proof
    fix t
    have "width_of (printWidths (asTr st')) t
            = Max (insert (width_of pw1 t) (set (observed (StringWidth ev) (sch (asTr st)) rows t)))"
      using w by simp
    also have "\<dots> = Max (insert (width_of (printWidths (asTr st)) t)
                          (set (observedIn (StringWidth ev) (sch (asTr st)) (Row r) t
                                @ observed (StringWidth ev) (sch (asTr st)) rows t)))"
      unfolding w1[rule_format] by (rule Max_insert_append[symmetric])
    finally show "width_of (printWidths (asTr st')) t
                  = Max (insert (width_of (printWidths (asTr st)) t)
                          (set (observed (StringWidth ev) (sch (asTr st)) (r # rows) t)))"
      by (simp only: observed_Cons)
  qed
  have m': "\<forall>t. width_of (maxRunes (asTr st')) t
                  = Max (insert (width_of (maxRunes (asTr st)) t)
                          (set (observed (RuneCount ev) (sch (asTr st)) (r # rows) t)))"
  proof
    fix t
    have "width_of (maxRunes (asTr st')) t
            = Max (insert (width_of mr1 t) (set (observed (RuneCount ev) (sch (asTr st)) rows t)))"
      using m by simp
    also have "\<dots> = Max (insert (width_of (maxRunes (asTr st)) t)
                          (set (observedIn (RuneCount ev) (sch (asTr st)) (Row r) t
                                @ observed (RuneCount ev) (sch (asTr st)) rows t)))"
      unfolding m1[rule_format] by (rule Max_insert_append[symmetric])
    finally show "width_of (maxRunes (asTr st')) t
                  = Max (insert (width_of (maxRunes (asTr st)) t)
                          (set (observed (RuneCount ev) (sch (asTr st)) (r # rows) t)))"
      by (simp only: observed_Cons)
  qed
  from step f w' m' show ?case by (intro exI[of _ st']) simp
qed

lemma flush_no_stop:
  assumes "fwtTr (asTr st) = None" and "rowBuffer (asTr st) = Some buf"
  shows "\<exists>st'. flush ev (\<lambda>_. False) st = Inr st' \<and>
           fwtTr (asTr st') = Some (NewFWTTransformer
              (NewFWTSchemaWithWidths (sch (asTr st)) (printWidths (asTr st)) (maxRunes (asTr st)))
              (tooLngBhv (asTr st))) \<and>
           printWidths (asTr st') = printWidths (asTr st) \<and>
           maxRunes (asTr st') = maxRunes (asTr st) \<and>
           rowBuffer (asTr st') = None \<and>
           outChan st' = outChan st @ sentOut ev (NewFWTTransformer
              (NewFWTSchemaWithWidths (sch (asTr st)) (printWidths (asTr st)) (maxRunes (asTr st)))
              (tooLngBhv (asTr st))) buf \<and>
           badRowChan st' = badRowChan st @ sentBad ev (NewFWTTransformer
              (NewFWTSchemaWithWidths (sch (asTr st)) (printWidths (asTr st)) (maxRunes (asTr st)))
              (tooLngBhv (asTr st))) buf"
proof -
  let ?tr = "NewFWTTransformer
              (NewFWTSchemaWithWidths (sch (asTr st)) (printWidths (asTr st)) (maxRunes (asTr st)))
              (tooLngBhv (asTr st))"
  let ?st1 = "st\<lparr>asTr := (asTr st)\<lparr>fwtTr := Some ?tr\<rparr>\<rparr>"
  have f: "fwtTr (asTr ?st1) = Some ?tr" by simp
  from flush_loop_no_stop[OF f, of ev 0 buf] obtain n where
    "flush_loop ev (\<lambda>_. False) 0 buf ?st1
           = Inr (False, ?st1\<lparr>outChan := outChan ?st1 @ sentOut ev ?tr buf,
                               badRowChan := badRowChan ?st1 @ sentBad ev ?tr buf,
                               polls := polls ?st1 + n\<rparr>)"
    by blast
  with assms show ?thesis by (simp add: flush_def Let_def)
qed

text \<open>
  A run that is still sampling when the input is closed: what the final flush leaves.
\<close>

lemma TransformToFWT_sampling_run:
  assumes "list_all (all_strings s) rows"
      and "n \<le> 0 \<or> int (length rows) \<le> n"
  shows "\<exists>st' tr. TransformToFWT ev (\<lambda>_. False) pick rows (newStage s b n) = Inr (st', []) \<and>
           fwtTr (asTr st') = Some tr \<and>
           tr = NewFWTTransformer
                  (NewFWTSchemaWithWidths s (printWidths (asTr st')) (maxRunes (asTr st'))) b \<and>
           (\<forall>t. width_of (printWidths (asTr st')) t
                  = Max (insert 0 (set (observed (StringWidth ev) s rows t)))) \<and>
           (\<forall>t. width_of (maxRunes (asTr st')) t
                  = Max (insert 0 (set (observed (RuneCount ev) s rows t)))) \<and>
           (rows = [] \<longrightarrow> printWidths (asTr st') = Map.empty \<and> maxRunes (asTr st') = Map.empty) \<and>
           rowBuffer (asTr st') = None \<and>
           outChan st' = sentOut ev tr rows \<and>
           badRowChan st' = sentBad ev tr rows"
proof -
  let ?st = "newStage s b n"
  have b0: "rowBuffer (asTr ?st) = Some []"
    by (simp add: newStage_def NewAutoSizingFWTTransformer_def)
  have g0: "numSamples (asTr ?st) \<le> 0
            \<or> int (length ([]::RowWithProps list) + length rows) \<le> numSamples (asTr ?st)"
    using assms(2) by (simp add: newStage_def NewAutoSizingFWTTransformer_def)
  have s0: "list_all (all_strings (sch (asTr ?st))) rows"
    using assms(1) by (simp add: newStage_def NewAutoSizingFWTTransformer_def)
  from RowLoop_sampling[OF b0 g0 s0, of ev pick] obtain st1 where
    loop: "RowLoop ev (\<lambda>_. False) pick rows ?st = Inr (InputClosed, st1, [])"
    and f: "rowBuffer (asTr st1) = Some rows" "sch (asTr st1) = s" "tooLngBhv (asTr st1) = b"
      "fwtTr (asTr st1) = None" "outChan st1 = []" "badRowChan st1 = []"
    and e: "rows = [] \<longrightarrow> printWidths (asTr st1) = Map.empty \<and> maxRunes (asTr st1) = Map.empty"
    and w: "\<forall>t. width_of (printWidths (asTr st1)) t
                  = Max (insert 0 (set (observed (StringWidth ev) s rows t)))"
    and m: "\<forall>t. width_of (maxRunes (asTr st1)) t
                  = Max (insert 0 (set (observed (RuneCount ev) s rows t)))"
    by (auto simp add: newStage_def NewAutoSizingFWTTransformer_def width_of_empty)
  let ?tr = "NewFWTTransformer
               (NewFWTSchemaWithWidths s (printWidths (asTr st1)) (maxRunes (asTr st1))) b"
  from flush_no_stop[OF f(4) f(1), of ev] obtain st2 where
    fl: "flush ev (\<lambda>_. False) st1 = Inr st2"
    and g: "fwtTr (asTr st2) = Some ?tr" "printWidths (asTr st2) = printWidths (asTr st1)"
      "maxRunes (asTr st2) = maxRunes (asTr st1)" "rowBuffer (asTr st2) = None"
      "outChan st2 = sentOut ev ?tr rows" "badRowChan st2 = sentBad ev ?tr rows"
    by (auto simp add: f)
  have run: "TransformToFWT ev (\<lambda>_. False) pick rows ?st = Inr (st2, [])"
    using loop fl by (simp add: TransformToFWT_def)
  show ?thesis
  proof (intro exI[of _ st2] exI[of _ ?tr] conjI)
    show "TransformToFWT ev (\<lambda>_. False) pick rows ?st = Inr (st2, [])" by (rule run)
    show "fwtTr (asTr st2) = Some ?tr" by (rule g(1))
    show "?tr = NewFWTTransformer
                  (NewFWTSchemaWithWidths s (printWidths (asTr st2)) (maxRunes (asTr st2))) b"
      by (simp add: g)
    show "\<forall>t. width_of (printWidths (asTr st2)) t
                  = Max (insert 0 (set (observed (StringWidth ev) s rows t)))"
      using w by (simp add: g)
    show "\<forall>t. width_of (maxRunes (asTr st2)) t
                  = Max (insert 0 (set (observed (RuneCount ev) s rows t)))"
      using m by (simp add: g)
    show "rows = [] \<longrightarrow> printWidths (asTr st2) = Map.empty \<and> maxRunes (asTr st2) = Map.empty"
      using e by (simp add: g)
    show "rowBuffer (asTr st2) = None" by (rule g(4))
    show "outChan st2 = sentOut ev ?tr rows" by (rule g(5))
    show "badRowChan st2 = sentBad ev ?tr rows" by (rule g(6))
  qed
qed

subsection \<open>Cancellation\<close>







subsection \<open>Runs that are still sampling when the input is closed\<close>

lemma processRow_asTr: "processRow ev st r = Inr st' \<Longrightarrow> asTr st' = asTr st"
  by (auto simp add: processRow_def Let_def split: option.splits prod.splits if_splits)

lemma RowLoop_materialized:
  assumes "rowBuffer (asTr st) = None"
      and "RowLoop ev (\<lambda>_. False) pick rows st = Inr (e, st1, rest)"
  shows "rowBuffer (asTr st1) = None"
  using assms
proof (induction rows arbitrary: st)
  case Nil
  then show ?case by auto
next
  case (Cons r rows)
  let ?st0 = "st\<lparr>polls := polls st + 2\<rparr>"
  have h: "handleRow ev (\<lambda>_. False) ?st0 r = processRow ev ?st0 r"
    using Cons.prems(1) by (simp add: handleRow_def)
  show ?case
  proof (cases "processRow ev ?st0 r")
    case (Inl er)
    with h Cons.prems(2) show ?thesis by simp
  next
    case (Inr st')
    then have "asTr st' = asTr ?st0" by (rule processRow_asTr)
    with Cons.prems(1) have b: "rowBuffer (asTr st') = None" by simp
    from Inr h Cons.prems(2) have "RowLoop ev (\<lambda>_. False) pick rows st' = Inr (e, st1, rest)"
      by simp
    from Cons.IH[OF b this] show ?thesis .
  qed
qed

lemma sampleRow_strings:
  assumes "sampleRow ev r cs acc = Inr res"
  shows "list_all (\<lambda>col. IsNull (GetColVal r (Tag col)) \<or> \<not> non_string (GetColVal r (Tag col))) cs"
proof (rule ccontr)
  assume "\<not> ?thesis"
  then obtain col where "col \<in> set cs" "\<not> IsNull (GetColVal r (Tag col))"
    "non_string (GetColVal r (Tag col))"
    by (auto simp add: list_all_iff)
  from sampleRow_panics[OF this, of ev acc] assms show False by auto
qed

lemma RowLoop_still_sampling:
  assumes "rowBuffer (asTr st) = Some buf"
      and "fwtTr (asTr st) = None"
      and "numSamples (asTr st) \<le> 0 \<or> int (length buf) \<le> numSamples (asTr st)"
      and "RowLoop ev (\<lambda>_. False) pick rows st = Inr (InputClosed, st1, [])"
      and "rowBuffer (asTr st1) = Some buf1"
  shows "list_all (all_strings (sch (asTr st))) rows \<and>
         (numSamples (asTr st) \<le> 0 \<or> int (length buf + length rows) \<le> numSamples (asTr st))"
  using assms
proof (induction rows arbitrary: st buf)
  case Nil
  then show ?case by simp
next
  case (Cons r rows)
  let ?st0 = "st\<lparr>polls := polls st + 2\<rparr>"
  show ?case
  proof (cases "numSamples (asTr st) \<le> 0 \<or> int (length buf) < numSamples (asTr st)")
    case g: True
    show ?thesis
    proof (cases "sampleRow ev (Row r) (sch (asTr st)) (printWidths (asTr st), maxRunes (asTr st))")
      case (Inl er)
      with Cons.prems(1) g have "handleRow ev (\<lambda>_. False) ?st0 r = Inl er"
        by (auto simp add: handleRow_def Let_def)
      with Cons.prems(4) show ?thesis by simp
    next
      case (Inr res)
      obtain pw mr where res: "res = (pw, mr)" by (cases res)
      from sampleRow_strings[OF Inr] have str: "all_strings (sch (asTr st)) r"
        by (simp add: all_strings_def)
      let ?st' = "?st0\<lparr>asTr := (asTr ?st0)\<lparr>printWidths := pw, maxRunes := mr,
                                             rowBuffer := Some (buf @ [r])\<rparr>\<rparr>"
      have h: "handleRow ev (\<lambda>_. False) ?st0 r = Inr ?st'"
        using Cons.prems(1) g Inr res by (auto simp add: handleRow_def Let_def)
      with Cons.prems(4) have run: "RowLoop ev (\<lambda>_. False) pick rows ?st' = Inr (InputClosed, st1, [])"
        by simp
      have b: "rowBuffer (asTr ?st') = Some (buf @ [r])" by simp
      have f: "fwtTr (asTr ?st') = None" using Cons.prems(2) by simp
      have i: "numSamples (asTr ?st') \<le> 0 \<or> int (length (buf @ [r])) \<le> numSamples (asTr ?st')"
        using g by auto
      from Cons.IH[OF b f i run Cons.prems(5)] str show ?thesis by auto
    qed
  next
    case ng: False
    have b0: "rowBuffer (asTr ?st0) = Some buf" using Cons.prems(1) by simp
    have f0: "fwtTr (asTr ?st0) = None" using Cons.prems(2) by simp
    from flush_no_stop[OF f0 b0, of ev] obtain st' where
      fl: "flush ev (\<lambda>_. False) ?st0 = Inr st'" and nb: "rowBuffer (asTr st') = None"
      by blast
    have "handleRow ev (\<lambda>_. False) ?st0 r = Inr st'"
      using Cons.prems(1) ng fl by (auto simp add: handleRow_def Let_def)
    with Cons.prems(4) have "RowLoop ev (\<lambda>_. False) pick rows st' = Inr (InputClosed, st1, [])"
      by simp
    from RowLoop_materialized[OF nb this] Cons.prems(5) show ?thesis by simp
  qed
qed

text \<open>
  C7.  Let the stop channel never be found raised.  The input is closed while the stage
  still samples exactly when every non-null value that the rows hold for the columns of
  the schema is a string and the sample size is non-positive or not smaller than the
  number of rows; the buffer then holds the rows in the order of their arrival.  In
  such a run all the input is received and the final flush drops the buffer;
  the formatter was built from the schema, the learned maps and the too-long behaviour,
  and the learned maps read, for each tag, the maximum of the display widths (and of
  the rune counts) of the non-null values that the rows hold for that tag, zero when
  there is none, with empty maps when there are no rows; the output queue holds what
  the formatter makes of the rows, in the order of their arrival, and the error queue
  the failures for the rows it rejects, in that order.
\<close>

theorem TransformToFWT_flushes_sample:
  "((\<exists>st1 buf. RowLoop ev (\<lambda>_. False) pick rows (newStage s b n) = Inr (InputClosed, st1, []) \<and>
               rowBuffer (asTr st1) = Some buf)
      \<longleftrightarrow> list_all (all_strings s) rows \<and> (n \<le> 0 \<or> int (length rows) \<le> n)) \<and>
   (\<forall>st1 buf. RowLoop ev (\<lambda>_. False) pick rows (newStage s b n) = Inr (InputClosed, st1, []) \<and>
               rowBuffer (asTr st1) = Some buf \<longrightarrow> buf = rows) \<and>
   (list_all (all_strings s) rows \<and> (n \<le> 0 \<or> int (length rows) \<le> n) \<longrightarrow>
      (\<exists>st' tr. TransformToFWT ev (\<lambda>_. False) pick rows (newStage s b n) = Inr (st', []) \<and>
           fwtTr (asTr st') = Some tr \<and>
           tr = NewFWTTransformer
                  (NewFWTSchemaWithWidths s (printWidths (asTr st')) (maxRunes (asTr st'))) b \<and>
           (\<forall>t. width_of (printWidths (asTr st')) t
                  = Max (insert 0 (set (observed (StringWidth ev) s rows t)))) \<and>
           (\<forall>t. width_of (maxRunes (asTr st')) t
                  = Max (insert 0 (set (observed (RuneCount ev) s rows t)))) \<and>
           (rows = [] \<longrightarrow> printWidths (asTr st') = Map.empty \<and> maxRunes (asTr st') = Map.empty) \<and>
           rowBuffer (asTr st') = None \<and>
           outChan st' = sentOut ev tr rows \<and>
           badRowChan st' = sentBad ev tr rows))"
proof -
  let ?st = "newStage s b n"
  let ?still = "\<exists>st1 buf. RowLoop ev (\<lambda>_. False) pick rows ?st = Inr (InputClosed, st1, []) \<and>
               rowBuffer (asTr st1) = Some buf"
  let ?inputs = "list_all (all_strings s) rows \<and> (n \<le> 0 \<or> int (length rows) \<le> n)"
  have b0: "rowBuffer (asTr ?st) = Some []" and f0: "fwtTr (asTr ?st) = None"
    and n0: "numSamples (asTr ?st) = n" and s0: "sch (asTr ?st) = s"
    by (simp_all add: newStage_def NewAutoSizingFWTTransformer_def)
  have p1: ?inputs if ?still
  proof -
    from that obtain st1 buf where
      run: "RowLoop ev (\<lambda>_. False) pick rows ?st = Inr (InputClosed, st1, [])"
      and buf: "rowBuffer (asTr st1) = Some buf"
      by blast
    have i0: "numSamples (asTr ?st) \<le> 0
              \<or> int (length ([]::RowWithProps list)) \<le> numSamples (asTr ?st)"
      unfolding n0 by (cases "n \<le> 0") simp_all
    from RowLoop_still_sampling[OF b0 f0 i0 run buf] show ?thesis
      by (simp add: n0 s0)
  qed
  have p2: ?still if a: ?inputs
  proof -
    have g0: "numSamples (asTr ?st) \<le> 0
            \<or> int (length ([]::RowWithProps list) + length rows) \<le> numSamples (asTr ?st)"
      using a by (simp add: n0)
    have l0: "list_all (all_strings (sch (asTr ?st))) rows" using a by (simp add: s0)
    from RowLoop_sampling[OF b0 g0 l0, of ev pick] show ?thesis by auto
  qed
  have p3: "\<exists>st' tr. TransformToFWT ev (\<lambda>_. False) pick rows ?st = Inr (st', []) \<and>
           fwtTr (asTr st') = Some tr \<and>
           tr = NewFWTTransformer
                  (NewFWTSchemaWithWidths s (printWidths (asTr st')) (maxRunes (asTr st'))) b \<and>
           (\<forall>t. width_of (printWidths (asTr st')) t
                  = Max (insert 0 (set (observed (StringWidth ev) s rows t)))) \<and>
           (\<forall>t. width_of (maxRunes (asTr st')) t
                  = Max (insert 0 (set (observed (RuneCount ev) s rows t)))) \<and>
           (rows = [] \<longrightarrow> printWidths (asTr st') = Map.empty \<and> maxRunes (asTr st') = Map.empty) \<and>
           rowBuffer (asTr st') = None \<and>
           outChan st' = sentOut ev tr rows \<and>
           badRowChan st' = sentBad ev tr rows" if a: ?inputs
  proof -
    from a have a1: "list_all (all_strings s) rows" and a2: "n \<le> 0 \<or> int (length rows) \<le> n"
      by simp_all
    from TransformToFWT_sampling_run[OF a1 a2, of ev pick b] show ?thesis .
  qed
  have p4: "buf = rows"
    if r: "RowLoop ev (\<lambda>_. False) pick rows ?st = Inr (InputClosed, st1, [])
           \<and> rowBuffer (asTr st1) = Some buf" for st1 buf
  proof -
    from r have ?still by blast
    then have a: ?inputs by (rule p1)
    have g0: "numSamples (asTr ?st) \<le> 0
            \<or> int (length ([]::RowWithProps list) + length rows) \<le> numSamples (asTr ?st)"
      using a by (simp add: n0)
    have l0: "list_all (all_strings (sch (asTr ?st))) rows" using a by (simp add: s0)
    from RowLoop_sampling[OF b0 g0 l0, of ev pick] r show ?thesis by auto
  qed
  from p1 p2 p3 p4 show ?thesis by blast
qed

text \<open>
  The theorem at a run: the rows a and bcd arrive with an unbounded sample; the stage
  still samples when the input is closed, both rows are sent, and the width learned for
  tag 1 is 3.
\<close>

theorem TransformToFWT_flushes_sample_witness:
  "(\<exists>st1 buf. RowLoop ex_env (\<lambda>_. False) (\<lambda>_. False) [ex_row ''a'', ex_row ''bcd'']
                 (newStage ex_sch 0 0) = Inr (InputClosed, st1, []) \<and>
               rowBuffer (asTr st1) = Some buf) \<and>
   (\<exists>st'. TransformToFWT ex_env (\<lambda>_. False) (\<lambda>_. False) [ex_row ''a'', ex_row ''bcd'']
            (newStage ex_sch 0 0) = Inr (st', []) \<and>
         width_of (printWidths (asTr st')) 1 = 3 \<and>
         outChan st' = [ex_row ''a'', ex_row ''bcd''] \<and> badRowChan st' = [])"
proof -
  let ?rows = "[ex_row ''a'', ex_row ''bcd'']"
  have a: "list_all (all_strings ex_sch) ?rows \<and> ((0::int) \<le> 0 \<or> int (length ?rows) \<le> 0)"
    by (simp add: all_strings_def ex_sch_def ex_row_def GetColVal_def non_string_def IsNull_def)
  note inst = TransformToFWT_flushes_sample[of ex_env "\<lambda>_. False" ?rows ex_sch 0 0]
  from inst a have still: "\<exists>st1 buf. RowLoop ex_env (\<lambda>_. False) (\<lambda>_. False) ?rows
                 (newStage ex_sch 0 0) = Inr (InputClosed, st1, []) \<and>
               rowBuffer (asTr st1) = Some buf"
    by blast
  from inst a obtain st' tr where
    run: "TransformToFWT ex_env (\<lambda>_. False) (\<lambda>_. False) ?rows (newStage ex_sch 0 0)
            = Inr (st', [])"
    and w: "\<forall>t. width_of (printWidths (asTr st')) t
                  = Max (insert 0 (set (observed (StringWidth ex_env) ex_sch ?rows t)))"
    and out: "outChan st' = sentOut ex_env tr ?rows"
    and bad: "badRowChan st' = sentBad ex_env tr ?rows"
    by blast
  have "observed (StringWidth ex_env) ex_sch ?rows 1 = [1, 3]"
    by (simp add: observed_def observedIn_def ex_env_def ex_sch_def ex_row_def GetColVal_def)
  with w have w1: "width_of (printWidths (asTr st')) 1 = 3" by simp
  have o: "sentOut ex_env tr ?rows = ?rows"
    by (simp add: sentOut_def ex_env_def ex_row_def)
  have e: "sentBad ex_env tr ?rows = []"
    by (simp add: sentBad_def ex_env_def)
  from still run w1 out bad o e show ?thesis by simp
qed

end
